theory Spec2Isabelle
  imports Complex_Main "HOL-Library.Sublist"
begin

section \<open>Binary64 floating point\<close>

text \<open>
  Go's \<open>float64\<close> is IEEE 754 binary64. A value is a finite number, an infinity or a
  NaN; finite values are kept as rationals. The two zeros are identified: they behave
  differently only as a divisor, and no divisor of the code below is a negative zero
  unless a target width is zero and the target height negative.

  \<open>round64\<close> rounds a rational to the nearest binary64 value, ties to even. It works on
  the magnitude scaled by \<open>scale64\<close>, where every binary64 value is an integer: below
  \<open>2 ^ 53\<close> (subnormals and the first normal binade) the representable values are the
  integers, and a magnitude of \<open>k > 53\<close> bits is rounded to a multiple of
  \<open>2 ^ (k - 53)\<close>. A rounded magnitude of \<open>2 ^ 1024\<close> or more (\<open>overflow64\<close> when scaled)
  overflows to an infinity.
\<close>

datatype float64 = Fin rat | PInf | NInf | NaN

fun bits :: "nat \<Rightarrow> nat" where
  "bits n = (if n = 0 then 0 else Suc (bits (n div 2)))"

declare bits.simps [simp del]

definition round_half_even :: "rat \<Rightarrow> int" where
  "round_half_even r =
     (let f = \<lfloor>r\<rfloor>; d = r - of_int f in
      if d < 1 / 2 then f else if 1 / 2 < d then f + 1 else if even f then f else f + 1)"

definition grid64 :: "rat \<Rightarrow> rat" where
  "grid64 X = (let k = bits (nat \<lfloor>X\<rfloor>) in if k \<le> 53 then 1 else 2 ^ (k - 53))"

definition round_mag :: "rat \<Rightarrow> rat" where
  "round_mag X = of_int (round_half_even (X / grid64 X)) * grid64 X"

definition scale64 :: rat where
  "scale64 = 2 ^ 1074"

definition overflow64 :: rat where
  "overflow64 = 2 ^ 2098"

definition round64 :: "rat \<Rightarrow> float64" where
  "round64 x =
     (let R = round_mag (\<bar>x\<bar> * scale64) in
      if overflow64 \<le> R then (if x < 0 then NInf else PInf)
      else Fin (sgn x * R / scale64))"

fun fmul :: "float64 \<Rightarrow> float64 \<Rightarrow> float64" where
  "fmul (Fin a) (Fin b) = round64 (a * b)"
| "fmul NaN _ = NaN"
| "fmul _ NaN = NaN"
| "fmul (Fin a) PInf = (if a = 0 then NaN else if 0 < a then PInf else NInf)"
| "fmul (Fin a) NInf = (if a = 0 then NaN else if 0 < a then NInf else PInf)"
| "fmul PInf (Fin b) = (if b = 0 then NaN else if 0 < b then PInf else NInf)"
| "fmul NInf (Fin b) = (if b = 0 then NaN else if 0 < b then NInf else PInf)"
| "fmul PInf PInf = PInf"
| "fmul PInf NInf = NInf"
| "fmul NInf PInf = NInf"
| "fmul NInf NInf = PInf"

fun fdiv :: "float64 \<Rightarrow> float64 \<Rightarrow> float64" where
  "fdiv (Fin a) (Fin b) =
     (if b = 0 then (if a = 0 then NaN else if 0 < a then PInf else NInf)
      else round64 (a / b))"
| "fdiv NaN _ = NaN"
| "fdiv _ NaN = NaN"
| "fdiv (Fin a) PInf = Fin 0"
| "fdiv (Fin a) NInf = Fin 0"
| "fdiv PInf (Fin b) = (if 0 \<le> b then PInf else NInf)"
| "fdiv NInf (Fin b) = (if 0 \<le> b then NInf else PInf)"
| "fdiv PInf PInf = NaN"
| "fdiv PInf NInf = NaN"
| "fdiv NInf PInf = NaN"
| "fdiv NInf NInf = NaN"

text \<open>The comparison \<open>a < b\<close> of two \<open>float64\<close>; it is false when either is a NaN.\<close>

fun flt :: "float64 \<Rightarrow> float64 \<Rightarrow> bool" where
  "flt (Fin a) (Fin b) = (a < b)"
| "flt NaN _ = False"
| "flt _ NaN = False"
| "flt PInf _ = False"
| "flt _ NInf = False"
| "flt (Fin a) PInf = True"
| "flt NInf (Fin b) = True"
| "flt NInf PInf = True"

text \<open>The comparison \<open>a <= b\<close> of two \<open>float64\<close>; it is false when either is a NaN.\<close>

fun fle :: "float64 \<Rightarrow> float64 \<Rightarrow> bool" where
  "fle (Fin a) (Fin b) = (a \<le> b)"
| "fle NaN _ = False"
| "fle _ NaN = False"
| "fle NInf _ = True"
| "fle _ PInf = True"
| "fle PInf _ = False"
| "fle _ NInf = False"

text \<open>The conversion \<open>float64(n)\<close> of a 64-bit integer.\<close>

definition float64_of_int :: "int \<Rightarrow> float64" where
  "float64_of_int n = round64 (of_int n)"

text \<open>
  The conversion of a \<open>float64\<close> to a 64-bit integer (\<open>int(x)\<close>, \<open>time.Duration(x)\<close>)
  discards the fraction. Where the truncated value is not an \<open>int64\<close> (also for an
  infinity or a NaN) the Go specification leaves the result to the implementation: the
  model takes that result from the parameter \<open>oor\<close>. \<open>oor_amd64\<close> is what the amd64
  conversion instruction delivers.
\<close>

definition trunc :: "rat \<Rightarrow> int" where
  "trunc r = (if 0 \<le> r then \<lfloor>r\<rfloor> else \<lceil>r\<rceil>)"

fun int_of_float64 :: "(float64 \<Rightarrow> int) \<Rightarrow> float64 \<Rightarrow> int" where
  "int_of_float64 oor (Fin r) =
     (if - (2 ^ 63) \<le> trunc r \<and> trunc r < 2 ^ 63 then trunc r else oor (Fin r))"
| "int_of_float64 oor f = oor f"

definition oor_amd64 :: "float64 \<Rightarrow> int" where
  "oor_amd64 f = - (2 ^ 63)"


section \<open>Strings\<close>

text \<open>
  Go strings are byte sequences; they are modelled as \<open>string\<close> (a list of 8-bit
  characters). \<open>strings.ToLower\<close> is modelled on the ASCII range: the bytes \<open>A\<close>..\<open>Z\<close>
  are mapped to \<open>a\<close>..\<open>z\<close>, every other byte is left as it is. The Go function
  works on Unicode: it also lowers the letters outside ASCII, of which U+0130 and U+212A
  become the ASCII letters \<open>i\<close> and \<open>k\<close>, and it replaces bytes that are not valid
  UTF-8. On a string with such bytes the model and the Go function differ.
\<close>

definition lower_byte :: "char \<Rightarrow> char" where
  "lower_byte c =
     (let n = (of_char c :: nat) in if 65 \<le> n \<and> n \<le> 90 then char_of (n + 32) else c)"

definition ToLower :: "string \<Rightarrow> string" where
  "ToLower s = map lower_byte s"

text \<open>\<open>strings.Contains s sub\<close>: \<open>sub\<close> occurs in \<open>s\<close> as a contiguous substring.\<close>

fun Contains :: "string \<Rightarrow> string \<Rightarrow> bool" where
  "Contains [] sub = (sub = [])"
| "Contains (c # cs) sub = (prefix sub (c # cs) \<or> Contains cs sub)"

text \<open>Decimal rendering of an integer, as the verb \<open>%d\<close> of \<open>fmt.Sprintf\<close> prints it.\<close>

fun nat_digits :: "nat \<Rightarrow> string" where
  "nat_digits n =
     (if n < 10 then [char_of (48 + n)] else nat_digits (n div 10) @ [char_of (48 + n mod 10)])"

definition int_decimal :: "int \<Rightarrow> string" where
  "int_decimal i = (if i < 0 then CHR ''-'' # nat_digits (nat (- i)) else nat_digits (nat i))"


section \<open>Errors (internal/errors/errors.go)\<close>

text \<open>
  \<open>ScreenshotError\<close> is the struct of the source. \<open>Timestamp\<close> is a \<open>time.Time\<close>; the
  model keeps it as an integer clock reading handed in by the caller.
\<close>

record ScreenshotError =
  URL :: string
  Day :: int
  ErrorType :: string
  Message :: string
  Timestamp :: int

text \<open>
  A value of Go's \<open>error\<close> interface, as far as the two type assertions of the source can
  tell errors apart: a pointer to a \<open>ScreenshotError\<close>, an error whose dynamic type
  implements \<open>net.Error\<close>, and any other error. The last two carry their message.
\<close>

datatype go_error =
    PlainError string
  | NetError string
  | ScreenshotErrorPtr ScreenshotError

definition ScreenshotError_Error :: "ScreenshotError \<Rightarrow> string" where
  "ScreenshotError_Error e =
     ''screenshot error (Day '' @ int_decimal (Day e) @ '', '' @ ErrorType e @ ''): ''
       @ URL e @ '' - '' @ Message e"

fun Error :: "go_error \<Rightarrow> string" where
  "Error (PlainError m) = m"
| "Error (NetError m) = m"
| "Error (ScreenshotErrorPtr e) = ScreenshotError_Error e"

fun is_net_Error :: "go_error \<Rightarrow> bool" where
  "is_net_Error (NetError m) = True"
| "is_net_Error _ = False"

definition categorizeError :: "go_error \<Rightarrow> string" where
  "categorizeError err =
     (let errStr = ToLower (Error err) in
      if Contains errStr ''timeout'' \<or> Contains errStr ''context deadline exceeded''
        then ''timeout''
      else if Contains errStr ''404'' \<or> Contains errStr ''not found''
        then ''not_found''
      else if Contains errStr ''403'' \<or> Contains errStr ''forbidden''
        then ''forbidden''
      else if Contains errStr ''500'' \<or> Contains errStr ''502'' \<or> Contains errStr ''503''
        then ''server_error''
      else if Contains errStr ''dns'' \<or> Contains errStr ''no such host''
        then ''dns_error''
      else if is_net_Error err
        then ''network_error''
      else if Contains errStr ''connection refused'' \<or> Contains errStr ''connection reset''
        then ''connection_error''
      else if Contains errStr ''browser'' \<or> Contains errStr ''launch''
        then ''browser_error''
      else ''unknown'')"

definition NewScreenshotError :: "int \<Rightarrow> string \<Rightarrow> int \<Rightarrow> go_error \<Rightarrow> ScreenshotError" where
  "NewScreenshotError now url day err =
     \<lparr> URL = url, Day = day, ErrorType = categorizeError err, Message = Error err,
       Timestamp = now \<rparr>"

definition retryablePatterns :: "string list" where
  "retryablePatterns =
     [''timeout'', ''context deadline exceeded'', ''connection refused'', ''connection reset'',
      ''502'', ''503'', ''504'']"

fun IsRetryableError :: "go_error \<Rightarrow> bool" where
  "IsRetryableError (ScreenshotErrorPtr screenshotErr) =
     (if ErrorType screenshotErr \<in> {''timeout'', ''server_error'', ''network_error'',
                                    ''connection_error''} then True
      else if ErrorType screenshotErr \<in> {''not_found'', ''forbidden'', ''dns_error'',
                                         ''browser_error''} then False
      else False)"
| "IsRetryableError err =
     list_ex (Contains (ToLower (Error err))) retryablePatterns"

text \<open>
  The classifier as the specification words it: an ordered list of category rules, each a
  trigger and its label, of which the first whose trigger fires gives the label, and
  the label \<open>unknown\<close> when none fires. It is compared with \<open>categorizeError\<close> below.
\<close>

definition mentions :: "go_error \<Rightarrow> string \<Rightarrow> bool" where
  "mentions err sub = Contains (ToLower (Error err)) sub"

definition category_rules :: "((go_error \<Rightarrow> bool) \<times> string) list" where
  "category_rules =
     [(\<lambda>err. mentions err ''timeout'' \<or> mentions err ''context deadline exceeded'', ''timeout''),
      (\<lambda>err. mentions err ''404'' \<or> mentions err ''not found'', ''not_found''),
      (\<lambda>err. mentions err ''403'' \<or> mentions err ''forbidden'', ''forbidden''),
      (\<lambda>err. mentions err ''500'' \<or> mentions err ''502'' \<or> mentions err ''503'',
         ''server_error''),
      (\<lambda>err. mentions err ''dns'' \<or> mentions err ''no such host'', ''dns_error''),
      (is_net_Error, ''network_error''),
      (\<lambda>err. mentions err ''connection refused'' \<or> mentions err ''connection reset'',
         ''connection_error''),
      (\<lambda>err. mentions err ''browser'' \<or> mentions err ''launch'', ''browser_error'')]"

fun first_match :: "((go_error \<Rightarrow> bool) \<times> string) list \<Rightarrow> go_error \<Rightarrow> string" where
  "first_match [] err = ''unknown''"
| "first_match (rule # rules) err = (if fst rule err then snd rule else first_match rules err)"

definition taxonomy :: "string list" where
  "taxonomy =
     [''timeout'', ''not_found'', ''forbidden'', ''server_error'', ''dns_error'',
      ''network_error'', ''connection_error'', ''browser_error'', ''unknown'']"

definition retryable_categories :: "string set" where
  "retryable_categories = {''timeout'', ''server_error'', ''network_error'', ''connection_error''}"

definition terminal_categories :: "string set" where
  "terminal_categories =
     {''not_found'', ''forbidden'', ''dns_error'', ''browser_error'', ''unknown''}"

text \<open>Durations are \<open>int64\<close> counts of nanoseconds.\<close>

record RetryConfig =
  MaxRetries :: int
  InitialDelay :: int
  BackoffFactor :: float64
  MaxDelay :: int
  RetryableErrors :: "string list"

definition Second :: int where
  "Second = 1000000000"

definition NewDefaultRetryConfig :: RetryConfig where
  "NewDefaultRetryConfig =
     \<lparr> MaxRetries = 3, InitialDelay = 1 * Second, BackoffFactor = Fin 2,
       MaxDelay = 30 * Second,
       RetryableErrors = [''timeout'', ''server_error'', ''network_error'', ''connection_error''] \<rparr>"

definition ShouldRetry :: "RetryConfig \<Rightarrow> go_error \<Rightarrow> int \<Rightarrow> bool" where
  "ShouldRetry rc err attempt =
     (if attempt \<ge> MaxRetries rc then False else IsRetryableError err)"








section \<open>Acquisition (screenshot/capture.go)\<close>

subsection \<open>URL patterns\<close>

text \<open>The character class \<open>[a-zA-Z0-9_-]\<close>.\<close>

definition id_char :: "char \<Rightarrow> bool" where
  "id_char c =
     (let n = (of_char c :: nat) in
      (97 \<le> n \<and> n \<le> 122) \<or> (65 \<le> n \<and> n \<le> 90) \<or> (48 \<le> n \<and> n \<le> 57) \<or> n = 95 \<or> n = 45)"

text \<open>
  Each of the three \<open>youtubeIDPatterns\<close> is a literal text followed by the group
  \<open>([a-zA-Z0-9_-]{11})\<close>; a pattern is kept as its literal text. \<open>match_here\<close> matches such
  a pattern at the start of a string and gives the group; \<open>FindStringSubmatch\<close> gives the
  group of the leftmost match, as the method of that name of Go's \<open>regexp\<close> does, and
  \<open>None\<close> where the method returns \<open>nil\<close>.
\<close>

definition youtubeIDPatterns :: "string list" where
  "youtubeIDPatterns = [''youtube.com/watch?v='', ''youtu.be/'', ''youtube.com/embed/'']"

definition match_here :: "string \<Rightarrow> string \<Rightarrow> string option" where
  "match_here lit s =
     (let after = drop (length lit) s in
      if prefix lit s \<and> 11 \<le> length after \<and> list_all id_char (take 11 after)
      then Some (take 11 after) else None)"

fun FindStringSubmatch :: "string \<Rightarrow> string \<Rightarrow> string option" where
  "FindStringSubmatch lit [] = match_here lit []"
| "FindStringSubmatch lit (c # cs) =
     (case match_here lit (c # cs) of
        Some g \<Rightarrow> Some g
      | None \<Rightarrow> FindStringSubmatch lit cs)"

text \<open>
  \<open>youtubeURLRegex\<close> is
  \<^verbatim>\<open>^https?://(www\.)?(youtube\.com/watch\?v=|youtu\.be/|youtube\.com/embed/)\<close>:
  it matches the strings that start with one of twelve literal texts.
\<close>

definition youtubeURL_prefixes :: "string list" where
  "youtubeURL_prefixes =
     [scheme @ www @ host.
        scheme \<leftarrow> [''http://'', ''https://''],
        www \<leftarrow> ['''', ''www.''],
        host \<leftarrow> [''youtube.com/watch?v='', ''youtu.be/'', ''youtube.com/embed/'']]"

definition isYouTubeURL :: "string \<Rightarrow> bool" where
  "isYouTubeURL url = list_ex (\<lambda>p. prefix p url) youtubeURL_prefixes"

fun extract_loop :: "string list \<Rightarrow> string \<Rightarrow> go_error + string" where
  "extract_loop [] url = Inl (PlainError (''could not extract video ID from URL: '' @ url))"
| "extract_loop (re # res) url =
     (case FindStringSubmatch re url of
        Some g \<Rightarrow> Inr g
      | None \<Rightarrow> extract_loop res url)"

definition extractYouTubeVideoID :: "string \<Rightarrow> go_error + string" where
  "extractYouTubeVideoID url = extract_loop youtubeIDPatterns url"

text \<open>
  The URL classifier of the specification. The source has no function of this name:
  \<open>CaptureScreenshot\<close> calls \<open>isYouTubeURL\<close> and then \<open>extractYouTubeVideoID\<close>.
\<close>

datatype url_class = Generic | VideoHost "go_error + string"

definition classify :: "string \<Rightarrow> url_class" where
  "classify url = (if isYouTubeURL url then VideoHost (extractYouTubeVideoID url) else Generic)"

subsection \<open>The environment\<close>

text \<open>
  What one HTTP GET delivers: a transport error, or a response with its status code,
  the bytes that \<open>io.Copy\<close> moves from the body into the file, and the error, if any, on
  which \<open>io.Copy\<close> stops after these bytes.
\<close>

datatype http_result = GetFailed go_error | Response int string "go_error option"

record ScreenshotConfig =
  ViewportWidth :: int
  ViewportHeight :: int
  Timeout :: int
  OutputDir :: string
  UserAgent :: string

type_synonym filesystem = "string \<rightharpoonup> string"

text \<open>
  The collaborators of the acquisition code: the HTTP endpoint, \<open>os.Create\<close> (the error
  with which creating a path fails, if it does), \<open>filepath.Join\<close>, and the page renderer.
  \<open>captureRegularScreenshot\<close> drives a headless browser through the go-rod library and
  writes the picture; that whole call is the black box \<open>page_renderer\<close>, which returns
  its error, if any, and the file system it leaves.
\<close>

record env =
  http_Get :: "string \<Rightarrow> http_result"
  os_Create :: "string \<Rightarrow> go_error option"
  filepath_Join :: "string \<Rightarrow> string \<Rightarrow> string"
  page_renderer :: "string \<Rightarrow> string \<Rightarrow> ScreenshotConfig \<Rightarrow> filesystem \<Rightarrow> go_error option \<times> filesystem"

text \<open>
  The state: the files, the URLs requested over HTTP so far, and the URLs for which the
  page renderer has been invoked so far, both in order.
\<close>

record world =
  files :: filesystem
  requests :: "string list"
  renders :: "string list"

subsection \<open>Thumbnail fetcher\<close>

definition thumbnail_url :: "string \<Rightarrow> string \<Rightarrow> string" where
  "thumbnail_url videoID quality =
     ''https://img.youtube.com/vi/'' @ videoID @ ''/'' @ quality @ ''.jpg''"

definition downloadThumbnail ::
  "env \<Rightarrow> string \<Rightarrow> string \<Rightarrow> string \<Rightarrow> world \<Rightarrow> go_error option \<times> world" where
  "downloadThumbnail e videoID quality outputPath w =
     (let w1 = w\<lparr>requests := requests w @ [thumbnail_url videoID quality]\<rparr> in
      case http_Get e (thumbnail_url videoID quality) of
        GetFailed err \<Rightarrow> (Some err, w1)
      | Response status body copy_err \<Rightarrow>
          if status \<noteq> 200 then (Some (PlainError (''HTTP '' @ int_decimal status)), w1)
          else
            (case os_Create e outputPath of
               Some err \<Rightarrow>
                 (Some (PlainError (''failed to create output file: '' @ Error err)), w1)
             | None \<Rightarrow>
                 (let w2 = w1\<lparr>files := (files w1)(outputPath \<mapsto> body)\<rparr> in
                  case copy_err of
                    Some err \<Rightarrow>
                      (Some (PlainError (''failed to write thumbnail: '' @ Error err)), w2)
                  | None \<Rightarrow> (None, w2))))"

definition qualities :: "string list" where
  "qualities = [''maxresdefault'', ''hqdefault'', ''mqdefault'', ''default'']"

fun fallback_loop ::
  "env \<Rightarrow> string \<Rightarrow> string \<Rightarrow> string list \<Rightarrow> world \<Rightarrow> go_error option \<times> world" where
  "fallback_loop e videoID outputPath [] w =
     (Some (PlainError (''failed to download thumbnail for video ID: '' @ videoID)), w)"
| "fallback_loop e videoID outputPath (quality # rest) w =
     (case downloadThumbnail e videoID quality outputPath w of
        (None, w') \<Rightarrow> (None, w')
      | (Some err, w') \<Rightarrow> fallback_loop e videoID outputPath rest w')"

definition downloadThumbnailWithFallback ::
  "env \<Rightarrow> string \<Rightarrow> string \<Rightarrow> world \<Rightarrow> go_error option \<times> world" where
  "downloadThumbnailWithFallback e videoID outputPath w =
     fallback_loop e videoID outputPath qualities w"

text \<open>
  \<open>opens_destination\<close>: the tier's request is answered with status 200 and creating the
  output file succeeds, so that \<open>downloadThumbnail\<close> reaches \<open>io.Copy\<close>.
\<close>

definition opens_destination :: "env \<Rightarrow> string \<Rightarrow> string \<Rightarrow> string \<Rightarrow> bool" where
  "opens_destination e videoID outputPath quality =
     (case http_Get e (thumbnail_url videoID quality) of
        GetFailed err \<Rightarrow> False
      | Response status body copy_err \<Rightarrow> status = 200 \<and> os_Create e outputPath = None)"


text \<open>\<open>tier_succeeds\<close>: \<open>downloadThumbnail\<close> returns \<open>nil\<close> for the tier.\<close>

definition tier_succeeds :: "env \<Rightarrow> string \<Rightarrow> string \<Rightarrow> world \<Rightarrow> string \<Rightarrow> bool" where
  "tier_succeeds e videoID outputPath w quality =
     (fst (downloadThumbnail e videoID quality outputPath w) = None)"

text \<open>
  \<open>copied_bytes\<close>: the bytes that \<open>io.Copy\<close> moves from the body of the tier's response
  into the file.
\<close>

definition copied_bytes :: "env \<Rightarrow> string \<Rightarrow> string \<Rightarrow> string" where
  "copied_bytes e videoID quality =
     (case http_Get e (thumbnail_url videoID quality) of
        GetFailed err \<Rightarrow> []
      | Response status body copy_err \<Rightarrow> body)"

subsection \<open>Orchestrator\<close>

definition captureRegularScreenshot ::
  "env \<Rightarrow> string \<Rightarrow> string \<Rightarrow> ScreenshotConfig \<Rightarrow> world \<Rightarrow> go_error option \<times> world" where
  "captureRegularScreenshot e url filename config w =
     (case page_renderer e url filename config (files w) of
        (res, fs) \<Rightarrow> (res, w\<lparr>files := fs, renders := renders w @ [url]\<rparr>))"

definition CaptureScreenshot ::
  "env \<Rightarrow> string \<Rightarrow> string \<Rightarrow> ScreenshotConfig \<Rightarrow> world \<Rightarrow> go_error option \<times> world" where
  "CaptureScreenshot e url filename config w =
     (if isYouTubeURL url then
        (case extractYouTubeVideoID url of
           Inr videoID \<Rightarrow>
             (case downloadThumbnailWithFallback e videoID
                     (filepath_Join e (OutputDir config) filename) w of
                (None, w') \<Rightarrow> (None, w')
              | (Some err, w') \<Rightarrow> captureRegularScreenshot e url filename config w')
         | Inl err \<Rightarrow> captureRegularScreenshot e url filename config w)
      else captureRegularScreenshot e url filename config w)"

subsection \<open>Example environments\<close>

text \<open>
  Three environments. In \<open>env_partial\<close> the best tier answers 200 and its body
  breaks off after seven bytes, and the other tiers answer 404. In \<open>env_lowest\<close> only the
  lowest tier answers 200. In \<open>env_down\<close> every tier answers 404. Creating a file
  succeeds, and the page renderer fails without touching the files.
\<close>

definition renderer_down :: "string \<Rightarrow> string \<Rightarrow> ScreenshotConfig \<Rightarrow> filesystem \<Rightarrow> go_error option \<times> filesystem" where
  "renderer_down url filename config fs = (Some (PlainError ''failed to launch browser''), fs)"

definition join_slash :: "string \<Rightarrow> string \<Rightarrow> string" where
  "join_slash dir name = dir @ ''/'' @ name"

definition get_partial :: "string \<Rightarrow> http_result" where
  "get_partial u =
     (if u = ''https://img.youtube.com/vi/Kf5-HWJPTIE/maxresdefault.jpg''
      then Response 200 ''partial'' (Some (PlainError ''unexpected EOF''))
      else Response 404 [] None)"

definition get_lowest :: "string \<Rightarrow> http_result" where
  "get_lowest u =
     (if u = ''https://img.youtube.com/vi/Kf5-HWJPTIE/default.jpg''
      then Response 200 ''JPEG'' None
      else Response 404 [] None)"

definition get_down :: "string \<Rightarrow> http_result" where
  "get_down u = Response 404 [] None"

definition create_ok :: "string \<Rightarrow> go_error option" where
  "create_ok path = None"

definition env_partial :: env where
  "env_partial =
     \<lparr> http_Get = get_partial, os_Create = create_ok, filepath_Join = join_slash,
       page_renderer = renderer_down \<rparr>"

definition env_lowest :: env where
  "env_lowest =
     \<lparr> http_Get = get_lowest, os_Create = create_ok, filepath_Join = join_slash,
       page_renderer = renderer_down \<rparr>"

definition env_down :: env where
  "env_down =
     \<lparr> http_Get = get_down, os_Create = create_ok, filepath_Join = join_slash,
       page_renderer = renderer_down \<rparr>"

definition world0 :: world where
  "world0 = \<lparr> files = Map.empty, requests = [], renders = [] \<rparr>"

definition config0 :: ScreenshotConfig where
  "config0 =
     \<lparr> ViewportWidth = 800, ViewportHeight = 600, Timeout = 30 * Second, OutputDir = ''out'',
       UserAgent = ''Mozilla/5.0'' \<rparr>"


section \<open>Adaptive resizer (screenshot/resize.go)\<close>

text \<open>
  \<open>image.Rectangle\<close> and \<open>image.Rect\<close>, which orders its corners, of Go's standard library.
\<close>

record rectangle =
  MinX :: int
  MinY :: int
  MaxX :: int
  MaxY :: int

definition image_Rect :: "int \<Rightarrow> int \<Rightarrow> int \<Rightarrow> int \<Rightarrow> rectangle" where
  "image_Rect x0 y0 x1 y1 =
     \<lparr> MinX = min x0 x1, MinY = min y0 y1, MaxX = max x0 x1, MaxY = max y0 y1 \<rparr>"

definition Dx :: "rectangle \<Rightarrow> int" where
  "Dx r = MaxX r - MinX r"

definition Dy :: "rectangle \<Rightarrow> int" where
  "Dy r = MaxY r - MinY r"

datatype ResampleFilter = Lanczos

datatype Anchor = Center

text \<open>
  The operations on images that \<open>SmartCrop\<close> calls: the method \<open>Bounds\<close> of \<open>image.Image\<close>
  and the functions \<open>Crop\<close>, \<open>Resize\<close>, \<open>Fill\<close> and \<open>Sharpen\<close> of the library
  \<open>github.com/disintegration/imaging\<close>. The library is not part of the repository, so
  the operations are parameters of the model, over any type of images.
\<close>

record 'img imaging =
  Bounds :: "'img \<Rightarrow> rectangle"
  Crop :: "'img \<Rightarrow> rectangle \<Rightarrow> 'img"
  Resize :: "'img \<Rightarrow> int \<Rightarrow> int \<Rightarrow> ResampleFilter \<Rightarrow> 'img"
  Fill :: "'img \<Rightarrow> int \<Rightarrow> int \<Rightarrow> Anchor \<Rightarrow> ResampleFilter \<Rightarrow> 'img"
  Sharpen :: "'img \<Rightarrow> float64 \<Rightarrow> 'img"

record SocialMediaPlatform =
  Name :: string
  Width :: int
  Height :: int

definition PlatformConfigs :: "string \<rightharpoonup> SocialMediaPlatform" where
  "PlatformConfigs =
     [''twitter'' \<mapsto> \<lparr> Name = ''Twitter/X'', Width = 1200, Height = 628 \<rparr>,
      ''linkedin'' \<mapsto> \<lparr> Name = ''LinkedIn'', Width = 1200, Height = 627 \<rparr>]"

text \<open>
  \<open>SmartCrop\<close>. Widths and heights are Go \<open>int\<close>s, taken as 64 bits wide; their
  differences are far inside that range and are computed on unbounded integers.
\<close>

definition SmartCrop :: "(float64 \<Rightarrow> int) \<Rightarrow> 'img imaging \<Rightarrow> 'img \<Rightarrow> int \<Rightarrow> int \<Rightarrow> 'img" where
  "SmartCrop oor lib img targetWidth targetHeight =
     (let bounds = Bounds lib img;
          originalWidth = Dx bounds;
          originalHeight = Dy bounds;
          targetRatio = fdiv (float64_of_int targetWidth) (float64_of_int targetHeight);
          originalRatio = fdiv (float64_of_int originalWidth) (float64_of_int originalHeight);
          resized =
            (if flt targetRatio originalRatio then
               (let newHeight = int_of_float64 oor (fdiv (float64_of_int originalWidth) targetRatio)
                in if newHeight \<le> originalHeight
                   then Crop lib img (image_Rect 0 0 originalWidth newHeight)
                   else Resize lib img targetWidth 0 Lanczos)
             else if flt originalRatio targetRatio then
               (let newWidth = int_of_float64 oor (fmul (float64_of_int originalHeight) targetRatio)
                in if newWidth \<le> originalWidth
                   then Crop lib img (image_Rect 0 0 newWidth originalHeight)
                   else Resize lib img 0 targetHeight Lanczos)
             else Resize lib img targetWidth targetHeight Lanczos)
      in Sharpen lib (Fill lib resized targetWidth targetHeight Center Lanczos) (Fin (1 / 2)))"

text \<open>
  The library \<open>github.com/disintegration/imaging\<close> (version 1.6.2) is not in the
  repository. \<open>traced\<close> is an instance of its operations that records which of them were
  applied to a source image of given bounds; \<open>traced_Bounds\<close> gives the bounds of the
  recorded image as the library computes them. \<open>Crop\<close> keeps the part of the rectangle
  that lies inside the image (\<open>Intersect\<close> of Go's package \<open>image\<close>), moved to the
  origin. \<open>Resize\<close> gives the dimensions asked for, a dimension given as 0 following
  from the other one by the aspect ratio (rounded, at least one pixel; the library
  computes it in \<open>float64\<close>, the model in exact arithmetic). \<open>Fill\<close> gives the
  dimensions asked for. \<open>Sharpen\<close> keeps the dimensions. The result is the empty image
  \<open>&image.NRGBA{}\<close> for \<open>Crop\<close> when the rectangle and the image do not overlap, for
  \<open>Resize\<close> and \<open>Fill\<close> of an image that is empty, for \<open>Resize\<close> to a negative
  dimension or to 0 by 0, and for \<open>Fill\<close> to a dimension that is not positive.
\<close>

datatype trace_image =
    Source rectangle
  | Cropped trace_image rectangle
  | Resized trace_image int int ResampleFilter
  | Filled trace_image int int Anchor ResampleFilter
  | Sharpened trace_image float64

definition Empty :: "rectangle \<Rightarrow> bool" where
  "Empty r = (MaxX r \<le> MinX r \<or> MaxY r \<le> MinY r)"

definition ZR :: rectangle where
  "ZR = \<lparr> MinX = 0, MinY = 0, MaxX = 0, MaxY = 0 \<rparr>"

definition Intersect :: "rectangle \<Rightarrow> rectangle \<Rightarrow> rectangle" where
  "Intersect r s =
     (let t = \<lparr> MinX = max (MinX r) (MinX s), MinY = max (MinY r) (MinY s),
                MaxX = min (MaxX r) (MaxX s), MaxY = min (MaxY r) (MaxY s) \<rparr>
      in if Empty t then ZR else t)"

definition scaled_side :: "int \<Rightarrow> int \<Rightarrow> int \<Rightarrow> int" where
  "scaled_side side other_new other_old =
     (if other_old \<le> 0 then 1 else max 1 ((2 * other_new * side + other_old) div (2 * other_old)))"

fun traced_Bounds :: "trace_image \<Rightarrow> rectangle" where
  "traced_Bounds (Source r) = r"
| "traced_Bounds (Cropped i r) =
     (let c = Intersect r (traced_Bounds i) in
      if Empty c then ZR else image_Rect 0 0 (Dx c) (Dy c))"
| "traced_Bounds (Resized i w h f) =
     (let b = traced_Bounds i in
      if w < 0 \<or> h < 0 then ZR
      else if w = 0 \<and> h = 0 then ZR
      else if Dx b \<le> 0 \<or> Dy b \<le> 0 then ZR
      else image_Rect 0 0
        (if w = 0 then scaled_side (Dx b) h (Dy b) else w)
        (if h = 0 then scaled_side (Dy b) w (Dx b) else h))"
| "traced_Bounds (Filled i w h a f) =
     (let b = traced_Bounds i in
      if w \<le> 0 \<or> h \<le> 0 then ZR
      else if Dx b \<le> 0 \<or> Dy b \<le> 0 then ZR
      else image_Rect 0 0 w h)"
| "traced_Bounds (Sharpened i s) = traced_Bounds i"

definition traced :: "trace_image imaging" where
  "traced =
     \<lparr> Bounds = traced_Bounds, Crop = Cropped, Resize = Resized, Fill = Filled,
       Sharpen = Sharpened \<rparr>"


text \<open>
  Contracts of the library operations, used as hypotheses. \<open>Fill_exact_on_nonempty\<close>:
  the fill pass, given an image that is not empty and positive dimensions, returns an
  image of exactly these dimensions. \<open>Sharpen_keeps\<close>: sharpening keeps the dimensions.
  \<open>Resize_nonempty\<close>: scaling an image that is not empty to a width and a height of
  which at least one is positive (the other may be 0, meaning that it follows from the
  aspect ratio) gives an image that is not empty. \<open>Crop_whole\<close>: cropping an image to
  its own bounds gives an image that is not empty.
\<close>

definition nonempty :: "'img imaging \<Rightarrow> 'img \<Rightarrow> bool" where
  "nonempty lib i = (0 < Dx (Bounds lib i) \<and> 0 < Dy (Bounds lib i))"

definition Fill_exact_on_nonempty :: "'img imaging \<Rightarrow> bool" where
  "Fill_exact_on_nonempty lib =
     (\<forall>i w h a f. 0 < w \<and> 0 < h \<and> nonempty lib i \<longrightarrow>
        Dx (Bounds lib (Fill lib i w h a f)) = w \<and> Dy (Bounds lib (Fill lib i w h a f)) = h)"

definition Sharpen_keeps :: "'img imaging \<Rightarrow> bool" where
  "Sharpen_keeps lib =
     (\<forall>i s. Dx (Bounds lib (Sharpen lib i s)) = Dx (Bounds lib i)
          \<and> Dy (Bounds lib (Sharpen lib i s)) = Dy (Bounds lib i))"

definition Resize_nonempty :: "'img imaging \<Rightarrow> bool" where
  "Resize_nonempty lib =
     (\<forall>i w h f. nonempty lib i \<and> 0 \<le> w \<and> 0 \<le> h \<and> (0 < w \<or> 0 < h) \<longrightarrow>
        nonempty lib (Resize lib i w h f))"

definition Crop_whole :: "'img imaging \<Rightarrow> bool" where
  "Crop_whole lib = (\<forall>i. nonempty lib i \<longrightarrow> nonempty lib (Crop lib i (Bounds lib i)))"


section \<open>Verified properties\<close>

subsection \<open>Error classifier and retry decision\<close>

text \<open>
  Claim C5. \<open>categorizeError\<close> assigns every error exactly one label, and that label is
  one of the nine of the taxonomy: it is the label of the first rule, in the fixed order
  timeout, not_found, forbidden, server_error, dns_error, network_error,
  connection_error, browser_error, whose trigger fires, and \<open>unknown\<close> when none fires.
  The labels of the rules followed by \<open>unknown\<close> are the nine distinct labels of the
  taxonomy. Being a function of the error, the assignment is deterministic also when the
  triggers of several rules are present.
\<close>

theorem categorizeError_first_match:
  "categorizeError err = first_match category_rules err
   \<and> categorizeError err \<in> set taxonomy
   \<and> map snd category_rules @ [''unknown''] = taxonomy
   \<and> distinct taxonomy \<and> length taxonomy = 9"
  by (simp add: categorizeError_def category_rules_def mentions_def taxonomy_def Let_def)

theorem categorizeError_first_match_witness:
  "first_match category_rules (PlainError ''Timeout after 404: connection refused'') = ''timeout''
   \<and> first_match category_rules (NetError ''read tcp 10.0.0.1: broken pipe'') = ''network_error''
   \<and> first_match category_rules (NetError ''lookup example.com: no such host'') = ''dns_error''
   \<and> first_match category_rules (PlainError ''something else'') = ''unknown''"
proof -
  have "categorizeError (PlainError ''Timeout after 404: connection refused'') = ''timeout''"
    and "categorizeError (NetError ''read tcp 10.0.0.1: broken pipe'') = ''network_error''"
    and "categorizeError (NetError ''lookup example.com: no such host'') = ''dns_error''"
    and "categorizeError (PlainError ''something else'') = ''unknown''"
    by code_simp+
  then show ?thesis
    using categorizeError_first_match [of "PlainError ''Timeout after 404: connection refused''"]
      categorizeError_first_match [of "NetError ''read tcp 10.0.0.1: broken pipe''"]
      categorizeError_first_match [of "NetError ''lookup example.com: no such host''"]
      categorizeError_first_match [of "PlainError ''something else''"]
    by simp
qed

text \<open>
  Claim C6. For a classified error (a \<open>*ScreenshotError\<close>) \<open>ShouldRetry\<close> holds exactly
  when the attempt is below \<open>MaxRetries\<close> and the error's category is one of timeout,
  server_error, network_error, connection_error; for the error built by
  \<open>NewScreenshotError\<close> that category is the one \<open>categorizeError\<close> assigns. It is false
  from attempt \<open>MaxRetries\<close> on whatever the category, and false at attempt 0 for the
  categories not_found, forbidden, dns_error, browser_error and unknown.
\<close>

theorem ShouldRetry_classified:
  "(ShouldRetry rc (ScreenshotErrorPtr e) attempt
      \<longleftrightarrow> attempt < MaxRetries rc \<and> ErrorType e \<in> retryable_categories)
   \<and> (ShouldRetry rc (ScreenshotErrorPtr (NewScreenshotError now url day err)) attempt
      \<longleftrightarrow> attempt < MaxRetries rc \<and> categorizeError err \<in> retryable_categories)
   \<and> (MaxRetries rc \<le> attempt \<longrightarrow> \<not> ShouldRetry rc (ScreenshotErrorPtr e) attempt)
   \<and> (ErrorType e \<in> terminal_categories \<longrightarrow> \<not> ShouldRetry rc (ScreenshotErrorPtr e) 0)"
  by (auto simp add: ShouldRetry_def NewScreenshotError_def retryable_categories_def
      terminal_categories_def)

theorem ShouldRetry_classified_witness:
  "ShouldRetry NewDefaultRetryConfig
     (ScreenshotErrorPtr (NewScreenshotError 0 ''https://example.com'' 1 (PlainError ''502 bad gateway''))) 2
   \<and> \<not> ShouldRetry NewDefaultRetryConfig
     (ScreenshotErrorPtr (NewScreenshotError 0 ''https://example.com'' 1 (PlainError ''502 bad gateway''))) 3
   \<and> \<not> ShouldRetry NewDefaultRetryConfig
     (ScreenshotErrorPtr \<lparr>URL = [], Day = 0, ErrorType = ''not_found'', Message = [], Timestamp = 0\<rparr>) 0"
proof -
  have c: "categorizeError (PlainError ''502 bad gateway'') = ''server_error''"
    by code_simp
  have m: "MaxRetries NewDefaultRetryConfig = 3"
    by (simp add: NewDefaultRetryConfig_def)
  show ?thesis
    using ShouldRetry_classified [of NewDefaultRetryConfig
        "\<lparr>URL = [], Day = 0, ErrorType = ''not_found'', Message = [], Timestamp = 0\<rparr>"
        2 0 "''https://example.com''" 1 "PlainError ''502 bad gateway''"]
      ShouldRetry_classified [of NewDefaultRetryConfig
        "\<lparr>URL = [], Day = 0, ErrorType = ''not_found'', Message = [], Timestamp = 0\<rparr>"
        3 0 "''https://example.com''" 1 "PlainError ''502 bad gateway''"]
    by (simp add: c m retryable_categories_def terminal_categories_def)
qed

subsection \<open>Thumbnail fetcher and orchestrator\<close>

lemma downloadThumbnail_fst_indep:
  "fst (downloadThumbnail e i q p w) = fst (downloadThumbnail e i q p w0)"
  by (simp add: downloadThumbnail_def Let_def split: http_result.splits option.splits)

lemma downloadThumbnail_requests:
  "requests (snd (downloadThumbnail e i q p w)) = requests w @ [thumbnail_url i q]"
  by (simp add: downloadThumbnail_def Let_def split: http_result.splits option.splits)

lemma downloadThumbnail_renders:
  "renders (snd (downloadThumbnail e i q p w)) = renders w"
  by (simp add: downloadThumbnail_def Let_def split: http_result.splits option.splits)

lemma downloadThumbnail_files_other:
  "p' \<noteq> p \<Longrightarrow> files (snd (downloadThumbnail e i q p w)) p' = files w p'"
  by (simp add: downloadThumbnail_def Let_def split: http_result.splits option.splits)

lemma downloadThumbnail_files_unopened:
  "\<not> opens_destination e i p q \<Longrightarrow> files (snd (downloadThumbnail e i q p w)) = files w"
  by (auto simp add: downloadThumbnail_def opens_destination_def Let_def
      split: http_result.splits option.splits)

lemma downloadThumbnail_ok_files:
  "fst (downloadThumbnail e i q p w) = None \<Longrightarrow>
   \<exists>body. http_Get e (thumbnail_url i q) = Response 200 body None
     \<and> files (snd (downloadThumbnail e i q p w)) p = Some body"
  by (auto simp add: downloadThumbnail_def Let_def split: http_result.splits option.splits if_splits)

lemma fallback_loop_renders:
  "renders (snd (fallback_loop e i p qs w)) = renders w"
proof (induction qs arbitrary: w)
  case Nil
  show ?case by simp
next
  case (Cons q qs)
  show ?case
  proof (cases "downloadThumbnail e i q p w")
    case (Pair r w')
    have "renders w' = renders w"
      using downloadThumbnail_renders [of e i q p w] Pair by simp
    then show ?thesis
      using Pair Cons.IH [of w'] by (cases r) simp_all
  qed
qed

lemma fallback_loop_files_other:
  "p' \<noteq> p \<Longrightarrow> files (snd (fallback_loop e i p qs w)) p' = files w p'"
proof (induction qs arbitrary: w)
  case Nil
  show ?case by simp
next
  case (Cons q qs)
  show ?case
  proof (cases "downloadThumbnail e i q p w")
    case (Pair r w')
    have "files w' p' = files w p'"
      using downloadThumbnail_files_other [OF Cons.prems, of e i q w] Pair by simp
    then show ?thesis
      using Pair Cons.IH [OF Cons.prems, of w'] by (cases r) simp_all
  qed
qed

lemma fallback_loop_files_unopened:
  "\<forall>q \<in> set qs. \<not> opens_destination e i p q \<Longrightarrow> files (snd (fallback_loop e i p qs w)) = files w"
proof (induction qs arbitrary: w)
  case Nil
  show ?case by simp
next
  case (Cons q qs)
  show ?case
  proof (cases "downloadThumbnail e i q p w")
    case (Pair r w')
    have "files w' = files w"
      using downloadThumbnail_files_unopened [of e i p q w] Cons.prems Pair by simp
    moreover have "files (snd (fallback_loop e i p qs w')) = files w'"
      using Cons.IH [of w'] Cons.prems by simp
    ultimately show ?thesis
      using Pair by (cases r) simp_all
  qed
qed

text \<open>The ladder, for any list of tiers: which tiers are requested, and the outcome.\<close>

lemma fallback_loop_ladder:
  fixes ok
  assumes ok_def: "ok = tier_succeeds e i p w0"
  shows "requests (snd (fallback_loop e i p qs w)) =
           requests w @ map (thumbnail_url i)
             (takeWhile (Not \<circ> ok) qs @ take 1 (dropWhile (Not \<circ> ok) qs))
         \<and> fst (fallback_loop e i p qs w) =
             (if list_ex ok qs then None
              else Some (PlainError (''failed to download thumbnail for video ID: '' @ i)))"
proof (induction qs arbitrary: w)
  case Nil
  show ?case by simp
next
  case (Cons q qs)
  show ?case
  proof (cases "downloadThumbnail e i q p w")
    case (Pair r w')
    have okq: "ok q \<longleftrightarrow> r = None"
      using downloadThumbnail_fst_indep [of e i q p w0 w] Pair by (simp add: ok_def tier_succeeds_def)
    have req: "requests w' = requests w @ [thumbnail_url i q]"
      using downloadThumbnail_requests [of e i q p w] Pair by simp
    show ?thesis
    proof (cases r)
      case None
      then show ?thesis using Pair okq req by simp
    next
      case (Some err)
      then show ?thesis using Pair okq req Cons.IH [of w'] by simp
    qed
  qed
qed

lemma fallback_loop_success_file:
  fixes ok
  assumes ok_def: "ok = tier_succeeds e i p w0"
  shows "find ok qs = Some q \<Longrightarrow>
         \<exists>body. http_Get e (thumbnail_url i q) = Response 200 body None
           \<and> files (snd (fallback_loop e i p qs w)) p = Some body"
proof (induction qs arbitrary: w)
  case Nil
  then show ?case by simp
next
  case (Cons q' qs)
  show ?case
  proof (cases "downloadThumbnail e i q' p w")
    case (Pair r w')
    have okq: "ok q' \<longleftrightarrow> r = None"
      using downloadThumbnail_fst_indep [of e i q' p w0 w] Pair by (simp add: ok_def tier_succeeds_def)
    show ?thesis
    proof (cases r)
      case None
      then have "q = q'" using Cons.prems okq by simp
      then show ?thesis
        using downloadThumbnail_ok_files [of e i q' p w] Pair None by simp
    next
      case (Some err)
      then have "find ok qs = Some q" using Cons.prems okq by simp
      then show ?thesis using Cons.IH [of w'] Pair Some by simp
    qed
  qed
qed

text \<open>
  Claim C4. The thumbnail fetcher has four quality tiers in the fixed order
  maxresdefault, hqdefault, mqdefault, default. It requests the tiers in that order up
  to and including the first whose download succeeds, and no later tier; it returns
  success exactly when some tier succeeds; and when all four fail its error message is
  the fixed text followed by the video ID, whatever the errors of the tiers were.
\<close>

theorem downloadThumbnailWithFallback_ladder:
  "qualities = [''maxresdefault'', ''hqdefault'', ''mqdefault'', ''default'']
   \<and> requests (snd (downloadThumbnailWithFallback e videoID outputPath w)) =
       requests w @ map (thumbnail_url videoID)
         (takeWhile (Not \<circ> tier_succeeds e videoID outputPath w) qualities
          @ take 1 (dropWhile (Not \<circ> tier_succeeds e videoID outputPath w) qualities))
   \<and> fst (downloadThumbnailWithFallback e videoID outputPath w) =
       (if list_ex (tier_succeeds e videoID outputPath w) qualities then None
        else Some (PlainError (''failed to download thumbnail for video ID: '' @ videoID)))"
  using fallback_loop_ladder [of "tier_succeeds e videoID outputPath w" e videoID outputPath w
      qualities w]
  by (simp add: downloadThumbnailWithFallback_def qualities_def)

theorem downloadThumbnailWithFallback_ladder_witness:
  "requests (snd (downloadThumbnailWithFallback env_lowest ''Kf5-HWJPTIE'' ''out/a.png'' world0)) =
     [''https://img.youtube.com/vi/Kf5-HWJPTIE/maxresdefault.jpg'',
      ''https://img.youtube.com/vi/Kf5-HWJPTIE/hqdefault.jpg'',
      ''https://img.youtube.com/vi/Kf5-HWJPTIE/mqdefault.jpg'',
      ''https://img.youtube.com/vi/Kf5-HWJPTIE/default.jpg'']
   \<and> fst (downloadThumbnailWithFallback env_lowest ''Kf5-HWJPTIE'' ''out/a.png'' world0) = None
   \<and> fst (downloadThumbnailWithFallback env_down ''Kf5-HWJPTIE'' ''out/a.png'' world0) =
       Some (PlainError ''failed to download thumbnail for video ID: Kf5-HWJPTIE'')"
proof -
  have low: "map (tier_succeeds env_lowest ''Kf5-HWJPTIE'' ''out/a.png'' world0) qualities
      = [False, False, False, True]"
    by code_simp
  have down: "map (tier_succeeds env_down ''Kf5-HWJPTIE'' ''out/a.png'' world0) qualities
      = [False, False, False, False]"
    by code_simp
  have q: "qualities = [''maxresdefault'', ''hqdefault'', ''mqdefault'', ''default'']"
    by (simp add: qualities_def)
  show ?thesis
    using downloadThumbnailWithFallback_ladder [of env_lowest "''Kf5-HWJPTIE''" "''out/a.png''" world0]
      downloadThumbnailWithFallback_ladder [of env_down "''Kf5-HWJPTIE''" "''out/a.png''" world0]
      low down
    unfolding q by (simp add: thumbnail_url_def world0_def)
qed

text \<open>
  Claim C8, as the specification states it, fails: the fetch is not atomic. In
  \<open>env_partial\<close> the best tier is answered with status 200, its body breaks off while it
  is copied, and the other tiers are answered with 404: the fetch fails, no file was at
  the destination before, and the bytes copied from the broken tier are there after.
\<close>

theorem thumbnail_fetch_not_atomic:
  "fst (downloadThumbnailWithFallback env_partial ''Kf5-HWJPTIE'' ''out/a.png'' world0) \<noteq> None
   \<and> files world0 ''out/a.png'' = None
   \<and> files (snd (downloadThumbnailWithFallback env_partial ''Kf5-HWJPTIE'' ''out/a.png'' world0))
        ''out/a.png'' = Some ''partial''"
  by code_simp

lemma downloadThumbnail_files_opened:
  "opens_destination e i p q \<Longrightarrow>
   files (snd (downloadThumbnail e i q p w)) p = Some (copied_bytes e i q)"
  by (auto simp add: downloadThumbnail_def opens_destination_def copied_bytes_def Let_def
      split: http_result.splits option.splits)

lemma fallback_loop_failure_file:
  "fst (fallback_loop e i p qs w) \<noteq> None \<Longrightarrow>
   files (snd (fallback_loop e i p qs w)) p =
     (let opened = filter (opens_destination e i p) qs in
      if opened = [] then files w p else Some (copied_bytes e i (last opened)))"
proof (induction qs arbitrary: w)
  case Nil
  show ?case by simp
next
  case (Cons q qs)
  show ?case
  proof (cases "downloadThumbnail e i q p w")
    case (Pair r w')
    show ?thesis
    proof (cases r)
      case None
      then show ?thesis
        using Pair Cons.prems by simp
    next
      case (Some err)
      then have fl: "fallback_loop e i p (q # qs) w = fallback_loop e i p qs w'"
        using Pair by simp
      then have "fst (fallback_loop e i p qs w') \<noteq> None"
        using Cons.prems by simp
      then have IH: "files (snd (fallback_loop e i p qs w')) p =
          (let opened = filter (opens_destination e i p) qs in
           if opened = [] then files w' p else Some (copied_bytes e i (last opened)))"
        by (rule Cons.IH)
      show ?thesis
      proof (cases "opens_destination e i p q")
        case True
        have "files w' p = Some (copied_bytes e i q)"
          using downloadThumbnail_files_opened [OF True, of w] Pair by simp
        then show ?thesis
          using IH fl True by (simp add: Let_def)
      next
        case False
        have "files w' = files w"
          using downloadThumbnail_files_unopened [OF False, of w] Pair by simp
        then show ?thesis
          using IH fl False by (simp add: Let_def)
      qed
    qed
  qed
qed

text \<open>
  Claim C8, amended. When the fetch succeeds, the destination holds the whole body of
  the first tier that succeeded. No other path is touched. When no tier gets as far as
  opening the destination (each tier ends in a transport error, a status other than
  200, or a failure to create the file), the fetch fails and the files are as they were.
  When the fetch fails after one or more tiers opened the destination, the destination
  holds exactly the bytes that were copied from the last of these tiers; what it held
  before is lost, and the fetch leaves this file behind.
\<close>

theorem thumbnail_fetch_files:
  "(find (tier_succeeds e videoID outputPath w) qualities = Some q \<longrightarrow>
      (\<exists>body. http_Get e (thumbnail_url videoID q) = Response 200 body None
         \<and> fst (downloadThumbnailWithFallback e videoID outputPath w) = None
         \<and> files (snd (downloadThumbnailWithFallback e videoID outputPath w)) outputPath
             = Some body))
   \<and> (p \<noteq> outputPath \<longrightarrow>
        files (snd (downloadThumbnailWithFallback e videoID outputPath w)) p = files w p)
   \<and> ((\<forall>quality \<in> set qualities. \<not> opens_destination e videoID outputPath quality) \<longrightarrow>
        fst (downloadThumbnailWithFallback e videoID outputPath w) \<noteq> None
        \<and> files (snd (downloadThumbnailWithFallback e videoID outputPath w)) = files w)
   \<and> (fst (downloadThumbnailWithFallback e videoID outputPath w) \<noteq> None
        \<and> filter (opens_destination e videoID outputPath) qualities \<noteq> [] \<longrightarrow>
        files (snd (downloadThumbnailWithFallback e videoID outputPath w)) outputPath
          = Some (copied_bytes e videoID
              (last (filter (opens_destination e videoID outputPath) qualities))))"
proof (intro conjI impI)
  assume f: "find (tier_succeeds e videoID outputPath w) qualities = Some q"
  then have "list_ex (tier_succeeds e videoID outputPath w) qualities"
    by (auto simp add: list_ex_iff find_Some_iff)
  then have ok: "fst (downloadThumbnailWithFallback e videoID outputPath w) = None"
    using fallback_loop_ladder [of "tier_succeeds e videoID outputPath w" e videoID outputPath w
        qualities w]
    by (simp add: downloadThumbnailWithFallback_def)
  show "\<exists>body. http_Get e (thumbnail_url videoID q) = Response 200 body None
         \<and> fst (downloadThumbnailWithFallback e videoID outputPath w) = None
         \<and> files (snd (downloadThumbnailWithFallback e videoID outputPath w)) outputPath
             = Some body"
    using fallback_loop_success_file [OF refl f, of w] ok
    by (simp add: downloadThumbnailWithFallback_def)
next
  assume "p \<noteq> outputPath"
  then show "files (snd (downloadThumbnailWithFallback e videoID outputPath w)) p = files w p"
    by (simp add: downloadThumbnailWithFallback_def fallback_loop_files_other)
next
  assume n: "\<forall>quality \<in> set qualities. \<not> opens_destination e videoID outputPath quality"
  have "\<not> tier_succeeds e videoID outputPath w quality" if "quality \<in> set qualities" for quality
    using n that
    by (auto simp add: tier_succeeds_def opens_destination_def downloadThumbnail_def Let_def
        split: http_result.splits option.splits if_splits)
  then have "\<not> list_ex (tier_succeeds e videoID outputPath w) qualities"
    by (simp add: list_ex_iff)
  then show "fst (downloadThumbnailWithFallback e videoID outputPath w) \<noteq> None"
    using fallback_loop_ladder [of "tier_succeeds e videoID outputPath w" e videoID outputPath w
        qualities w]
    by (simp add: downloadThumbnailWithFallback_def)
next
  assume n: "\<forall>quality \<in> set qualities. \<not> opens_destination e videoID outputPath quality"
  then show "files (snd (downloadThumbnailWithFallback e videoID outputPath w)) = files w"
    by (simp add: downloadThumbnailWithFallback_def fallback_loop_files_unopened)
next
  assume a: "fst (downloadThumbnailWithFallback e videoID outputPath w) \<noteq> None
        \<and> filter (opens_destination e videoID outputPath) qualities \<noteq> []"
  then have "fst (fallback_loop e videoID outputPath qualities w) \<noteq> None"
    by (simp add: downloadThumbnailWithFallback_def)
  then have "files (snd (fallback_loop e videoID outputPath qualities w)) outputPath =
     (let opened = filter (opens_destination e videoID outputPath) qualities in
      if opened = [] then files w outputPath else Some (copied_bytes e videoID (last opened)))"
    by (rule fallback_loop_failure_file)
  then show "files (snd (downloadThumbnailWithFallback e videoID outputPath w)) outputPath
          = Some (copied_bytes e videoID
              (last (filter (opens_destination e videoID outputPath) qualities)))"
    using a by (simp add: downloadThumbnailWithFallback_def Let_def)
qed

theorem thumbnail_fetch_files_witness:
  "fst (downloadThumbnailWithFallback env_lowest ''Kf5-HWJPTIE'' ''out/a.png'' world0) = None
   \<and> files (snd (downloadThumbnailWithFallback env_lowest ''Kf5-HWJPTIE'' ''out/a.png'' world0))
        ''out/a.png'' = Some ''JPEG''
   \<and> files (snd (downloadThumbnailWithFallback env_lowest ''Kf5-HWJPTIE'' ''out/a.png'' world0))
        ''out/b.png'' = None
   \<and> fst (downloadThumbnailWithFallback env_down ''Kf5-HWJPTIE'' ''out/a.png'' world0) \<noteq> None
   \<and> files (snd (downloadThumbnailWithFallback env_down ''Kf5-HWJPTIE'' ''out/a.png'' world0))
        = Map.empty
   \<and> files (snd (downloadThumbnailWithFallback env_partial ''Kf5-HWJPTIE'' ''out/c.png'' world0))
        ''out/c.png'' = Some ''partial''"
proof -
  have f: "find (tier_succeeds env_lowest ''Kf5-HWJPTIE'' ''out/a.png'' world0) qualities
      = Some ''default''"
    by code_simp
  have g: "http_Get env_lowest (thumbnail_url ''Kf5-HWJPTIE'' ''default'') = Response 200 ''JPEG'' None"
    by code_simp
  have n: "\<forall>quality \<in> set qualities. \<not> opens_destination env_down ''Kf5-HWJPTIE'' ''out/a.png'' quality"
    by code_simp
  have p: "''out/b.png'' \<noteq> ''out/a.png''"
    by simp
  have x: "fst (downloadThumbnailWithFallback env_partial ''Kf5-HWJPTIE'' ''out/c.png'' world0)
      \<noteq> None"
    by code_simp
  have o: "filter (opens_destination env_partial ''Kf5-HWJPTIE'' ''out/c.png'') qualities
      = [''maxresdefault'']"
    by code_simp
  have first: "fst (downloadThumbnailWithFallback env_lowest ''Kf5-HWJPTIE'' ''out/a.png'' world0) = None
   \<and> files (snd (downloadThumbnailWithFallback env_lowest ''Kf5-HWJPTIE'' ''out/a.png'' world0))
        ''out/a.png'' = Some ''JPEG''
   \<and> files (snd (downloadThumbnailWithFallback env_lowest ''Kf5-HWJPTIE'' ''out/a.png'' world0))
        ''out/b.png'' = None
   \<and> fst (downloadThumbnailWithFallback env_down ''Kf5-HWJPTIE'' ''out/a.png'' world0) \<noteq> None
   \<and> files (snd (downloadThumbnailWithFallback env_down ''Kf5-HWJPTIE'' ''out/a.png'' world0))
        = Map.empty"
    using thumbnail_fetch_files [of env_lowest "''Kf5-HWJPTIE''" "''out/a.png''" world0
        "''default''" "''out/b.png''"]
      thumbnail_fetch_files [of env_down "''Kf5-HWJPTIE''" "''out/a.png''" world0
        "''default''" "''out/b.png''"]
      f g n p
    by (simp add: world0_def)
  have "files (snd (downloadThumbnailWithFallback env_partial ''Kf5-HWJPTIE'' ''out/c.png'' world0))
        ''out/c.png''
      = Some (copied_bytes env_partial ''Kf5-HWJPTIE''
          (last (filter (opens_destination env_partial ''Kf5-HWJPTIE'' ''out/c.png'') qualities)))"
    using thumbnail_fetch_files [of env_partial "''Kf5-HWJPTIE''" "''out/c.png''" world0
        "''default''" "''out/b.png''"] x o
    by simp
  moreover have "copied_bytes env_partial ''Kf5-HWJPTIE'' ''maxresdefault'' = ''partial''"
    by code_simp
  ultimately have "files (snd (downloadThumbnailWithFallback env_partial ''Kf5-HWJPTIE''
        ''out/c.png'' world0)) ''out/c.png'' = Some ''partial''"
    unfolding o by simp
  then show ?thesis
    using first by simp
qed

text \<open>
  Claim C2. When the URL is a video-host URL, the identifier is extracted and the
  thumbnail fetch succeeds, \<open>CaptureScreenshot\<close> returns success and the page renderer is
  not invoked. In every other case (another URL, a failed extraction, a failed fetch)
  the page renderer is invoked once, for this URL, and \<open>CaptureScreenshot\<close> returns the
  renderer's outcome.
\<close>

theorem CaptureScreenshot_routing:
  "(isYouTubeURL url \<and> extractYouTubeVideoID url = Inr videoID
      \<and> fst (downloadThumbnailWithFallback e videoID
               (filepath_Join e (OutputDir config) filename) w) = None
    \<longrightarrow> fst (CaptureScreenshot e url filename config w) = None
        \<and> renders (snd (CaptureScreenshot e url filename config w)) = renders w)
   \<and> (\<not> (isYouTubeURL url \<and> (\<exists>videoID. extractYouTubeVideoID url = Inr videoID
            \<and> fst (downloadThumbnailWithFallback e videoID
                     (filepath_Join e (OutputDir config) filename) w) = None))
    \<longrightarrow> renders (snd (CaptureScreenshot e url filename config w)) = renders w @ [url]
        \<and> (\<exists>w'. renders w' = renders w
              \<and> CaptureScreenshot e url filename config w
                  = captureRegularScreenshot e url filename config w'))"
proof -
  have A: "fst (CaptureScreenshot e url filename config w) = None
        \<and> renders (snd (CaptureScreenshot e url filename config w)) = renders w"
    if a: "isYouTubeURL url \<and> extractYouTubeVideoID url = Inr videoID
      \<and> fst (downloadThumbnailWithFallback e videoID
               (filepath_Join e (OutputDir config) filename) w) = None"
  proof -
    obtain r w' where d: "downloadThumbnailWithFallback e videoID
        (filepath_Join e (OutputDir config) filename) w = (r, w')"
      by (cases "downloadThumbnailWithFallback e videoID
        (filepath_Join e (OutputDir config) filename) w")
    have "renders w' = renders w"
      using fallback_loop_renders [of e videoID "filepath_Join e (OutputDir config) filename"
          qualities w] d
      by (simp add: downloadThumbnailWithFallback_def)
    then show ?thesis
      using a d by (simp add: CaptureScreenshot_def)
  qed
  have r: "renders (snd (captureRegularScreenshot e url filename config w')) = renders w' @ [url]"
    for w'
    by (simp add: captureRegularScreenshot_def split: prod.splits)
  have B: "\<exists>w'. renders w' = renders w
      \<and> CaptureScreenshot e url filename config w
          = captureRegularScreenshot e url filename config w'"
    if b: "\<not> (isYouTubeURL url \<and> (\<exists>videoID. extractYouTubeVideoID url = Inr videoID
            \<and> fst (downloadThumbnailWithFallback e videoID
                     (filepath_Join e (OutputDir config) filename) w) = None))"
  proof (cases "isYouTubeURL url")
    case False
    then show ?thesis by (auto simp add: CaptureScreenshot_def)
  next
    case True
    show ?thesis
    proof (cases "extractYouTubeVideoID url")
      case (Inl err)
      then show ?thesis using True by (auto simp add: CaptureScreenshot_def)
    next
      case (Inr i)
      obtain res w' where d: "downloadThumbnailWithFallback e i
          (filepath_Join e (OutputDir config) filename) w = (res, w')"
        by (cases "downloadThumbnailWithFallback e i
          (filepath_Join e (OutputDir config) filename) w")
      have rw: "renders w' = renders w"
        using fallback_loop_renders [of e i "filepath_Join e (OutputDir config) filename"
            qualities w] d
        by (simp add: downloadThumbnailWithFallback_def)
      have "res \<noteq> None" using b True Inr d by auto
      then obtain err where "res = Some err" by auto
      then have "CaptureScreenshot e url filename config w
          = captureRegularScreenshot e url filename config w'"
        using True Inr d by (simp add: CaptureScreenshot_def)
      then show ?thesis using rw by blast
    qed
  qed
  have B': "renders (snd (CaptureScreenshot e url filename config w)) = renders w @ [url]"
    if b: "\<not> (isYouTubeURL url \<and> (\<exists>videoID. extractYouTubeVideoID url = Inr videoID
            \<and> fst (downloadThumbnailWithFallback e videoID
                     (filepath_Join e (OutputDir config) filename) w) = None))"
    using B [OF b] r by auto
  show ?thesis
    using A B B' by blast
qed

theorem CaptureScreenshot_routing_witness:
  "fst (CaptureScreenshot env_lowest ''https://youtu.be/Kf5-HWJPTIE'' ''a.png'' config0 world0) = None
   \<and> renders (snd (CaptureScreenshot env_lowest ''https://youtu.be/Kf5-HWJPTIE'' ''a.png'' config0
        world0)) = []
   \<and> renders (snd (CaptureScreenshot env_lowest ''https://example.com/article'' ''a.png'' config0
        world0)) = [''https://example.com/article'']"
proof -
  have y: "isYouTubeURL ''https://youtu.be/Kf5-HWJPTIE''"
    and x: "extractYouTubeVideoID ''https://youtu.be/Kf5-HWJPTIE'' = Inr ''Kf5-HWJPTIE''"
    and d: "fst (downloadThumbnailWithFallback env_lowest ''Kf5-HWJPTIE''
        (filepath_Join env_lowest (OutputDir config0) ''a.png'') world0) = None"
    and n: "\<not> isYouTubeURL ''https://example.com/article''"
    by code_simp+
  show ?thesis
    using CaptureScreenshot_routing [of "''https://youtu.be/Kf5-HWJPTIE''" "''Kf5-HWJPTIE''"
        env_lowest config0 "''a.png''" world0]
      CaptureScreenshot_routing [of "''https://example.com/article''" "''Kf5-HWJPTIE''"
        env_lowest config0 "''a.png''" world0]
      y x d n
    by (simp add: world0_def)
qed

subsection \<open>URL classifier\<close>

lemma match_here_Some:
  assumes "match_here lit s = Some g"
  shows "length g = 11 \<and> list_all id_char g \<and> (\<exists>post. s = lit @ g @ post)"
proof -
  let ?after = "drop (length lit) s"
  from assms have p: "prefix lit s" and l: "11 \<le> length ?after"
    and c: "list_all id_char (take 11 ?after)" and g: "g = take 11 ?after"
    by (auto simp add: match_here_def Let_def split: if_splits)
  from p have "s = lit @ ?after"
    by (auto simp add: prefix_def)
  moreover have "?after = g @ drop 11 ?after"
    unfolding g by (simp only: append_take_drop_id)
  ultimately have "s = lit @ g @ drop 11 ?after"
    by metis
  moreover have "length g = 11"
    using l g by simp
  ultimately show ?thesis
    using c g by blast
qed

lemma match_here_token:
  assumes "11 \<le> length tok" and "list_all id_char tok"
  shows "match_here lit (lit @ tok @ rest) = Some (take 11 tok)"
  using assms by (simp add: match_here_def Let_def list_all_iff) (meson in_set_takeD)

lemma FindStringSubmatch_Some:
  "FindStringSubmatch lit s = Some g \<Longrightarrow>
   length g = 11 \<and> list_all id_char g \<and> (\<exists>pre post. s = pre @ lit @ g @ post)"
proof (induction s)
  case Nil
  then have "match_here lit [] = Some g"
    by simp
  then show ?case
    by (simp add: match_here_def Let_def split: if_splits)
next
  case (Cons c cs)
  show ?case
  proof (cases "match_here lit (c # cs)")
    case None
    then have "FindStringSubmatch lit cs = Some g"
      using Cons.prems by simp
    then obtain pre post where "length g = 11" "list_all id_char g" "cs = pre @ lit @ g @ post"
      using Cons.IH by blast
    then have "c # cs = (c # pre) @ lit @ g @ post"
      by simp
    then show ?thesis
      using \<open>length g = 11\<close> \<open>list_all id_char g\<close> by blast
  next
    case (Some g')
    then have "g' = g" using Cons.prems by simp
    then obtain post where "length g = 11" "list_all id_char g" "c # cs = lit @ g @ post"
      using match_here_Some [of lit "c # cs" g] Some by blast
    then have "c # cs = [] @ lit @ g @ post"
      by simp
    then show ?thesis
      using \<open>length g = 11\<close> \<open>list_all id_char g\<close> by blast
  qed
qed

lemma FindStringSubmatch_start:
  "match_here lit s = Some g \<Longrightarrow> FindStringSubmatch lit s = Some g"
  by (cases s) simp_all

lemma FindStringSubmatch_skip:
  "\<forall>i < length pre. match_here lit (drop i (pre @ s)) = None \<Longrightarrow>
   FindStringSubmatch lit (pre @ s) = FindStringSubmatch lit s"
proof (induction pre)
  case Nil
  show ?case by simp
next
  case (Cons c pre)
  have "match_here lit (drop 0 ((c # pre) @ s)) = None"
    using Cons.prems by blast
  then have h: "match_here lit (c # pre @ s) = None"
    by simp
  have "\<forall>i < length pre. match_here lit (drop i (pre @ s)) = None"
  proof (intro allI impI)
    fix i
    assume "i < length pre"
    then have "match_here lit (drop (Suc i) ((c # pre) @ s)) = None"
      using Cons.prems by (metis Suc_less_eq length_Cons)
    then show "match_here lit (drop i (pre @ s)) = None"
      by simp
  qed
  then show ?case
    using Cons.IH h by simp
qed

lemma FindStringSubmatch_found:
  assumes "11 \<le> length tok" and "list_all id_char tok"
  shows "\<exists>g. FindStringSubmatch lit (pre @ lit @ tok @ rest) = Some g"
proof (induction pre)
  case Nil
  show ?case
    using FindStringSubmatch_start [OF match_here_token [OF assms, of lit rest]] by simp
next
  case (Cons c pre)
  then show ?case
    by (cases "match_here lit (c # pre @ lit @ tok @ rest)") auto
qed

lemma extract_loop_Inr:
  "extract_loop ps url = Inr g \<Longrightarrow> \<exists>lit \<in> set ps. FindStringSubmatch lit url = Some g"
  by (induction ps) (auto split: option.splits)

lemma extract_loop_found:
  "lit \<in> set ps \<Longrightarrow> FindStringSubmatch lit url = Some g \<Longrightarrow> \<exists>g'. extract_loop ps url = Inr g'"
  by (induction ps) (auto split: option.splits)

lemma extract_loop_first:
  "lit \<in> set ps \<Longrightarrow> FindStringSubmatch lit url = Some g \<Longrightarrow>
   \<forall>lit' \<in> set (takeWhile (\<lambda>l. l \<noteq> lit) ps). FindStringSubmatch lit' url = None \<Longrightarrow>
   extract_loop ps url = Inr g"
proof (induction ps)
  case Nil
  then show ?case by simp
next
  case (Cons a ps)
  show ?case
  proof (cases "a = lit")
    case True
    then show ?thesis using Cons.prems(2) by simp
  next
    case False
    then have "FindStringSubmatch a url = None"
      using Cons.prems(3) by simp
    moreover have "lit \<in> set ps"
      using Cons.prems(1) False by simp
    moreover have "\<forall>lit' \<in> set (takeWhile (\<lambda>l. l \<noteq> lit) ps). FindStringSubmatch lit' url = None"
      using Cons.prems(3) False by simp
    ultimately show ?thesis
      using Cons.IH Cons.prems(2) by simp
  qed
qed

text \<open>No pattern can match inside the scheme and the optional \<open>www.\<close> of a URL.\<close>

lemma match_here_other_start:
  "lit \<in> set youtubeIDPatterns \<Longrightarrow> c \<noteq> CHR ''y'' \<Longrightarrow> match_here lit (c # cs) = None"
  by (auto simp add: youtubeIDPatterns_def match_here_def Let_def)

lemma FindStringSubmatch_skip_no_y:
  "lit \<in> set youtubeIDPatterns \<Longrightarrow> CHR ''y'' \<notin> set pre \<Longrightarrow>
   FindStringSubmatch lit (pre @ s) = FindStringSubmatch lit s"
proof (induction pre)
  case Nil
  show ?case by simp
next
  case (Cons c pre)
  have "c \<noteq> CHR ''y''"
    using Cons.prems(2) by auto
  then have "match_here lit (c # pre @ s) = None"
    using match_here_other_start [OF Cons.prems(1)] by blast
  moreover have "FindStringSubmatch lit (pre @ s) = FindStringSubmatch lit s"
    using Cons.IH Cons.prems by simp
  ultimately show ?case by simp
qed

lemma youtubeURL_prefix_member:
  "scheme \<in> {''http://'', ''https://''} \<Longrightarrow> www \<in> {[], ''www.''} \<Longrightarrow>
   lit \<in> set youtubeIDPatterns \<Longrightarrow> scheme @ www @ lit \<in> set youtubeURL_prefixes"
  by (auto simp add: youtubeURL_prefixes_def youtubeIDPatterns_def)

lemma isYouTubeURL_prefix:
  assumes "p \<in> set youtubeURL_prefixes"
  shows "isYouTubeURL (p @ s)"
proof -
  have "prefix p (p @ s)"
    by simp
  then show ?thesis
    using assms unfolding isYouTubeURL_def list_ex_iff by blast
qed

text \<open>
  Claim C3, as the specification states it, fails: a URL of a video-host shape need not
  carry an identifier. \<open>https://youtu.be/abc\<close> matches the short-link shape, and no
  identifier is extracted from it.
\<close>

theorem classify_short_identifier:
  "isYouTubeURL ''https://youtu.be/abc''
   \<and> classify ''https://youtu.be/abc''
       = VideoHost (Inl (PlainError ''could not extract video ID from URL: https://youtu.be/abc''))"
  by code_simp

lemma extract_loop_none:
  "\<forall>lit \<in> set ps. FindStringSubmatch lit url = None \<Longrightarrow>
   extract_loop ps url = Inl (PlainError (''could not extract video ID from URL: '' @ url))"
  by (induction ps) simp_all

text \<open>
  Claim C3, amended. The classifier is a function on all strings. A URL that does not
  match a video-host shape is Generic. An identifier that the classifier returns has
  exactly 11 characters of the class \<open>[A-Za-z0-9_-]\<close> and stands in the URL right after
  one of the three pattern texts. A URL that consists of a scheme, an optional \<open>www.\<close>,
  a pattern text, 11 or more characters of the class, and anything after them (such as
  query parameters), is classified as a video host with an identifier; the identifier
  is the first 11 of these characters unless a pattern that is tried earlier matches
  somewhere in the URL (none is tried before the watch-page pattern). A URL that matches
  a video-host shape and in which, at no position, a pattern text is followed by 11
  characters of the class, is classified as a video host whose extraction fails.
\<close>

theorem classify_video_host:
  "(\<not> isYouTubeURL url \<longrightarrow> classify url = Generic)
   \<and> (classify url = VideoHost (Inr g) \<longrightarrow>
        length g = 11 \<and> list_all id_char g
        \<and> (\<exists>lit \<in> set youtubeIDPatterns. \<exists>pre post. url = pre @ lit @ g @ post))
   \<and> (scheme \<in> {''http://'', ''https://''} \<and> www \<in> {[], ''www.''}
        \<and> lit \<in> set youtubeIDPatterns \<and> 11 \<le> length tok \<and> list_all id_char tok \<longrightarrow>
        (\<exists>g'. classify (scheme @ www @ lit @ tok @ rest) = VideoHost (Inr g'))
        \<and> ((\<forall>lit' \<in> set (takeWhile (\<lambda>l. l \<noteq> lit) youtubeIDPatterns).
               FindStringSubmatch lit' (scheme @ www @ lit @ tok @ rest) = None) \<longrightarrow>
             classify (scheme @ www @ lit @ tok @ rest) = VideoHost (Inr (take 11 tok))))
   \<and> (isYouTubeURL url
        \<and> (\<forall>lit' \<in> set youtubeIDPatterns. FindStringSubmatch lit' url = None) \<longrightarrow>
        classify url
          = VideoHost (Inl (PlainError (''could not extract video ID from URL: '' @ url))))"
proof -
  have generic: "classify url = Generic" if "\<not> isYouTubeURL url"
    using that by (simp add: classify_def)
  have ident: "length g = 11 \<and> list_all id_char g
        \<and> (\<exists>lit \<in> set youtubeIDPatterns. \<exists>pre post. url = pre @ lit @ g @ post)"
    if "classify url = VideoHost (Inr g)"
  proof -
    have "extractYouTubeVideoID url = Inr g"
      using that by (simp add: classify_def split: if_splits)
    then obtain l where l: "l \<in> set youtubeIDPatterns" "FindStringSubmatch l url = Some g"
      using extract_loop_Inr [of youtubeIDPatterns url g]
      by (auto simp add: extractYouTubeVideoID_def)
    then show ?thesis
      using FindStringSubmatch_Some [of l url g] by blast
  qed
  have shape: "(\<exists>g'. classify (scheme @ www @ lit @ tok @ rest) = VideoHost (Inr g'))
        \<and> ((\<forall>lit' \<in> set (takeWhile (\<lambda>l. l \<noteq> lit) youtubeIDPatterns).
               FindStringSubmatch lit' (scheme @ www @ lit @ tok @ rest) = None) \<longrightarrow>
             classify (scheme @ www @ lit @ tok @ rest) = VideoHost (Inr (take 11 tok)))"
    if a: "scheme \<in> {''http://'', ''https://''} \<and> www \<in> {[], ''www.''}
        \<and> lit \<in> set youtubeIDPatterns \<and> 11 \<le> length tok \<and> list_all id_char tok"
  proof -
    let ?url = "scheme @ www @ lit @ tok @ rest"
    have "scheme @ www @ lit \<in> set youtubeURL_prefixes"
      using a youtubeURL_prefix_member by blast
    then have "isYouTubeURL ((scheme @ www @ lit) @ tok @ rest)"
      by (rule isYouTubeURL_prefix)
    then have y: "isYouTubeURL ?url"
      by simp
    have "CHR ''y'' \<notin> set (scheme @ www)"
      using a by auto
    then have "FindStringSubmatch lit ((scheme @ www) @ lit @ tok @ rest)
        = FindStringSubmatch lit (lit @ tok @ rest)"
      using a FindStringSubmatch_skip_no_y by blast
    moreover have "FindStringSubmatch lit (lit @ tok @ rest) = Some (take 11 tok)"
      using a FindStringSubmatch_start match_here_token by blast
    ultimately have f: "FindStringSubmatch lit ?url = Some (take 11 tok)"
      by simp
    have "\<exists>g'. extractYouTubeVideoID ?url = Inr g'"
      using a f extract_loop_found [of lit youtubeIDPatterns ?url]
      by (simp add: extractYouTubeVideoID_def)
    moreover have "extractYouTubeVideoID ?url = Inr (take 11 tok)"
      if "\<forall>lit' \<in> set (takeWhile (\<lambda>l. l \<noteq> lit) youtubeIDPatterns).
               FindStringSubmatch lit' ?url = None"
      using a f that extract_loop_first [of lit youtubeIDPatterns ?url]
      by (simp add: extractYouTubeVideoID_def)
    ultimately show ?thesis
      using y by (auto simp add: classify_def)
  qed
  have fails: "classify url
      = VideoHost (Inl (PlainError (''could not extract video ID from URL: '' @ url)))"
    if "isYouTubeURL url \<and> (\<forall>lit' \<in> set youtubeIDPatterns. FindStringSubmatch lit' url = None)"
    using that extract_loop_none [of youtubeIDPatterns url]
    by (simp add: classify_def extractYouTubeVideoID_def)
  show ?thesis
    using generic ident shape fails by blast
qed

theorem classify_video_host_witness:
  "classify ''https://example.com/article'' = Generic
   \<and> classify ''https://youtu.be/Kf5-HWJPTIE?si=01AaOhARAG9tfHFp'' = VideoHost (Inr ''Kf5-HWJPTIE'')
   \<and> classify ''https://www.youtube.com/watch?v=short''
       = VideoHost (Inl (PlainError
           ''could not extract video ID from URL: https://www.youtube.com/watch?v=short''))"
proof -
  note t = classify_video_host [of "''https://example.com/article''" "''Kf5-HWJPTIE''"
      "''https://''" "[]" "''youtu.be/''" "''Kf5-HWJPTIE''" "''?si=01AaOhARAG9tfHFp''"]
  note u = classify_video_host [of "''https://www.youtube.com/watch?v=short''" "''Kf5-HWJPTIE''"
      "''https://''" "[]" "''youtu.be/''" "''Kf5-HWJPTIE''" "''?si=01AaOhARAG9tfHFp''"]
  have n: "\<not> isYouTubeURL ''https://example.com/article''"
    by code_simp
  have c: "list_all id_char ''Kf5-HWJPTIE''"
    by code_simp
  have f: "FindStringSubmatch ''youtube.com/watch?v=''
      ''https://youtu.be/Kf5-HWJPTIE?si=01AaOhARAG9tfHFp'' = None"
    by code_simp
  have p: "youtubeIDPatterns = [''youtube.com/watch?v='', ''youtu.be/'', ''youtube.com/embed/'']"
    by (simp add: youtubeIDPatterns_def)
  have generic: "classify ''https://example.com/article'' = Generic"
    using conjunct1 [OF t] n by (rule mp)
  have a: "''https://'' \<in> {''http://'', ''https://''} \<and> [] \<in> {[], ''www.''}
      \<and> ''youtu.be/'' \<in> set youtubeIDPatterns \<and> 11 \<le> length ''Kf5-HWJPTIE''
      \<and> list_all id_char ''Kf5-HWJPTIE''"
    using c by (simp add: p)
  have b: "\<forall>lit' \<in> set (takeWhile (\<lambda>l. l \<noteq> ''youtu.be/'') youtubeIDPatterns).
      FindStringSubmatch lit' (''https://'' @ [] @ ''youtu.be/'' @ ''Kf5-HWJPTIE''
        @ ''?si=01AaOhARAG9tfHFp'') = None"
    using f by (simp add: p)
  have "classify (''https://'' @ [] @ ''youtu.be/'' @ ''Kf5-HWJPTIE'' @ ''?si=01AaOhARAG9tfHFp'')
      = VideoHost (Inr (take 11 ''Kf5-HWJPTIE''))"
    using conjunct2 [OF mp [OF conjunct1 [OF conjunct2 [OF conjunct2 [OF t]]] a]] b by (rule mp)
  then have ident: "classify ''https://youtu.be/Kf5-HWJPTIE?si=01AaOhARAG9tfHFp''
      = VideoHost (Inr ''Kf5-HWJPTIE'')"
    by simp
  have y: "isYouTubeURL ''https://www.youtube.com/watch?v=short''"
    by code_simp
  have f1: "FindStringSubmatch ''youtube.com/watch?v='' ''https://www.youtube.com/watch?v=short''
      = None"
    by code_simp
  have f2: "FindStringSubmatch ''youtu.be/'' ''https://www.youtube.com/watch?v=short'' = None"
    by code_simp
  have f3: "FindStringSubmatch ''youtube.com/embed/'' ''https://www.youtube.com/watch?v=short''
      = None"
    by code_simp
  have d: "isYouTubeURL ''https://www.youtube.com/watch?v=short''
      \<and> (\<forall>lit' \<in> set youtubeIDPatterns.
            FindStringSubmatch lit' ''https://www.youtube.com/watch?v=short'' = None)"
    using y f1 f2 f3 by (simp add: p)
  have "classify ''https://www.youtube.com/watch?v=short''
      = VideoHost (Inl (PlainError
          (''could not extract video ID from URL: '' @ ''https://www.youtube.com/watch?v=short'')))"
    using conjunct2 [OF conjunct2 [OF conjunct2 [OF u]]] d by (rule mp)
  then have fails: "classify ''https://www.youtube.com/watch?v=short''
      = VideoHost (Inl (PlainError
          ''could not extract video ID from URL: https://www.youtube.com/watch?v=short''))"
    by simp
  show ?thesis
    using generic ident fails by simp
qed

text \<open>
  Claim C10, as stated, fails in two ways. The texts that the patterns look for are
  \<open>youtube.com/watch?v=\<close>, \<open>youtu.be/\<close> and \<open>youtube.com/embed/\<close>: after \<open>embed/\<close> on
  another host nothing is extracted. And when two markers are each followed by an
  identifier, the result is the one of the pattern tried first, not the 11 characters
  after the other marker.
\<close>

theorem extract_marker_counterexample:
  "extractYouTubeVideoID ''https://example.com/embed/ABCDEFGHIJKL''
     = Inl (PlainError
         ''could not extract video ID from URL: https://example.com/embed/ABCDEFGHIJKL'')
   \<and> extractYouTubeVideoID ''https://youtu.be/AAAAAAAAAAAA?u=youtube.com/watch?v=BBBBBBBBBBB''
     = Inr ''BBBBBBBBBBB''"
  by code_simp

text \<open>
  Claim C10, amended. For every URL in which one of the pattern texts
  \<open>youtube.com/watch?v=\<close>, \<open>youtu.be/\<close>, \<open>youtube.com/embed/\<close> is followed by 11 or more
  characters of the class \<open>[A-Za-z0-9_-]\<close>, extraction succeeds and returns 11 characters
  of the class that stand right after a pattern text in the URL. It returns the first 11
  characters after this occurrence, cutting a longer token short, when no pattern that
  is tried earlier matches anywhere in the URL and this pattern does not match at an
  earlier position.
\<close>

theorem extract_truncates:
  "lit \<in> set youtubeIDPatterns \<and> 11 \<le> length tok \<and> list_all id_char tok \<longrightarrow>
     (\<exists>g. extractYouTubeVideoID (pre @ lit @ tok @ rest) = Inr g
         \<and> length g = 11 \<and> list_all id_char g
         \<and> (\<exists>lit' \<in> set youtubeIDPatterns. \<exists>pre' post'.
               pre @ lit @ tok @ rest = pre' @ lit' @ g @ post'))
     \<and> ((\<forall>lit' \<in> set (takeWhile (\<lambda>l. l \<noteq> lit) youtubeIDPatterns).
            FindStringSubmatch lit' (pre @ lit @ tok @ rest) = None)
         \<and> (\<forall>i < length pre. match_here lit (drop i (pre @ lit @ tok @ rest)) = None) \<longrightarrow>
          extractYouTubeVideoID (pre @ lit @ tok @ rest) = Inr (take 11 tok))"
proof (rule impI)
  let ?url = "pre @ lit @ tok @ rest"
  assume a: "lit \<in> set youtubeIDPatterns \<and> 11 \<le> length tok \<and> list_all id_char tok"
  then obtain g0 where g0: "FindStringSubmatch lit ?url = Some g0"
    using FindStringSubmatch_found [of tok lit pre rest] by blast
  then obtain g where g: "extractYouTubeVideoID ?url = Inr g"
    using a extract_loop_found [of lit youtubeIDPatterns ?url g0]
    by (auto simp add: extractYouTubeVideoID_def)
  then obtain l where l: "l \<in> set youtubeIDPatterns" "FindStringSubmatch l ?url = Some g"
    using extract_loop_Inr [of youtubeIDPatterns ?url g]
    by (auto simp add: extractYouTubeVideoID_def)
  have first: "\<exists>g. extractYouTubeVideoID ?url = Inr g
         \<and> length g = 11 \<and> list_all id_char g
         \<and> (\<exists>lit' \<in> set youtubeIDPatterns. \<exists>pre' post'. ?url = pre' @ lit' @ g @ post')"
    using g l FindStringSubmatch_Some [of l ?url g] by blast
  have second: "extractYouTubeVideoID ?url = Inr (take 11 tok)"
    if b: "(\<forall>lit' \<in> set (takeWhile (\<lambda>l. l \<noteq> lit) youtubeIDPatterns).
            FindStringSubmatch lit' ?url = None)
         \<and> (\<forall>i < length pre. match_here lit (drop i ?url) = None)"
  proof -
    have "FindStringSubmatch lit ?url = FindStringSubmatch lit (lit @ tok @ rest)"
      using b FindStringSubmatch_skip [of pre lit "lit @ tok @ rest"] by blast
    moreover have "FindStringSubmatch lit (lit @ tok @ rest) = Some (take 11 tok)"
      using a FindStringSubmatch_start match_here_token by blast
    ultimately have "FindStringSubmatch lit ?url = Some (take 11 tok)"
      by simp
    then show ?thesis
      using a b extract_loop_first [of lit youtubeIDPatterns ?url]
      by (simp add: extractYouTubeVideoID_def)
  qed
  show "(\<exists>g. extractYouTubeVideoID ?url = Inr g
         \<and> length g = 11 \<and> list_all id_char g
         \<and> (\<exists>lit' \<in> set youtubeIDPatterns. \<exists>pre' post'. ?url = pre' @ lit' @ g @ post'))
     \<and> ((\<forall>lit' \<in> set (takeWhile (\<lambda>l. l \<noteq> lit) youtubeIDPatterns).
            FindStringSubmatch lit' ?url = None)
         \<and> (\<forall>i < length pre. match_here lit (drop i ?url) = None) \<longrightarrow>
          extractYouTubeVideoID ?url = Inr (take 11 tok))"
    using first second by blast
qed

theorem extract_truncates_witness:
  "extractYouTubeVideoID ''youtube.com/watch?v=Kf5-HWJPTIEXYZ&t=1'' = Inr ''Kf5-HWJPTIE''"
proof -
  note t = extract_truncates [of "''youtube.com/watch?v=''" "''Kf5-HWJPTIEXYZ''" "[]" "''&t=1''"]
  have c: "list_all id_char ''Kf5-HWJPTIEXYZ''"
    by code_simp
  have p: "youtubeIDPatterns = [''youtube.com/watch?v='', ''youtu.be/'', ''youtube.com/embed/'']"
    by (simp add: youtubeIDPatterns_def)
  have a: "''youtube.com/watch?v='' \<in> set youtubeIDPatterns \<and> 11 \<le> length ''Kf5-HWJPTIEXYZ''
      \<and> list_all id_char ''Kf5-HWJPTIEXYZ''"
    using c by (simp add: p)
  have b: "(\<forall>lit' \<in> set (takeWhile (\<lambda>l. l \<noteq> ''youtube.com/watch?v='') youtubeIDPatterns).
        FindStringSubmatch lit' ([] @ ''youtube.com/watch?v='' @ ''Kf5-HWJPTIEXYZ'' @ ''&t=1'') = None)
      \<and> (\<forall>i < length ([] :: string). match_here ''youtube.com/watch?v=''
        (drop i ([] @ ''youtube.com/watch?v='' @ ''Kf5-HWJPTIEXYZ'' @ ''&t=1'')) = None)"
    by (simp add: p)
  have "extractYouTubeVideoID ([] @ ''youtube.com/watch?v='' @ ''Kf5-HWJPTIEXYZ'' @ ''&t=1'')
      = Inr (take 11 ''Kf5-HWJPTIEXYZ'')"
    using conjunct2 [OF mp [OF t a]] b by (rule mp)
  then show ?thesis
    by simp
qed

subsection \<open>Rounding to binary64\<close>

lemma bits_zero: "bits 0 = 0"
  by (simp add: bits.simps)

lemma bits_pos: "0 < n \<Longrightarrow> bits n = Suc (bits (n div 2))"
  by (subst bits.simps) simp

lemma bits_upper: "n < 2 ^ bits n"
proof (induction n rule: bits.induct)
  case (1 n)
  show ?case
  proof (cases "n = 0")
    case True
    then show ?thesis by (simp add: bits_zero)
  next
    case False
    then have "n div 2 < 2 ^ bits (n div 2)"
      using 1 by simp
    then have "n < 2 * 2 ^ bits (n div 2)"
      by linarith
    then show ?thesis
      using False by (simp add: bits_pos)
  qed
qed

lemma bits_lower: "0 < n \<Longrightarrow> 2 ^ (bits n - 1) \<le> n"
proof (induction n rule: bits.induct)
  case (1 n)
  show ?case
  proof (cases "n div 2 = 0")
    case True
    then have "bits n = 1"
      using 1(2) by (simp add: bits_pos bits_zero)
    then show ?thesis
      using 1(2) by simp
  next
    case False
    then have "2 ^ (bits (n div 2) - 1) \<le> n div 2"
      using 1 by simp
    moreover have "bits (n div 2) \<noteq> 0"
      using False by (simp add: bits_pos)
    ultimately have "2 ^ bits (n div 2) \<le> 2 * (n div 2)"
      by (cases "bits (n div 2)") simp_all
    then have "2 ^ bits (n div 2) \<le> n"
      by linarith
    then show ?thesis
      using 1(2) by (simp add: bits_pos)
  qed
qed

lemma bits_unique:
  assumes "2 ^ k \<le> n" and "n < 2 ^ Suc k"
  shows "bits n = Suc k"
proof -
  have pos: "0 < n"
    using assms(1) by (metis gr0I not_less zero_less_numeral zero_less_power)
  have "(2::nat) ^ k < 2 ^ bits n"
    using assms(1) bits_upper [of n] by linarith
  then have a: "k < bits n"
    using power_less_imp_less_exp [of "2::nat" k "bits n"] by simp
  have "(2::nat) ^ (bits n - 1) < 2 ^ Suc k"
    using assms(2) bits_lower [OF pos] by linarith
  then have "bits n - 1 < Suc k"
    using power_less_imp_less_exp [of "2::nat" "bits n - 1" "Suc k"] by simp
  then show ?thesis
    using a by linarith
qed

lemma bits_mono: "m \<le> n \<Longrightarrow> bits m \<le> bits n"
proof (cases "m = 0")
  case True
  then show ?thesis by (simp add: bits_zero)
next
  case False
  assume le: "m \<le> n"
  have "(2::nat) ^ (bits m - 1) < 2 ^ bits n"
    using bits_lower [of m] bits_upper [of n] False le by linarith
  then have "bits m - 1 < bits n"
    using power_less_imp_less_exp [of "2::nat" "bits m - 1" "bits n"] by simp
  then show ?thesis by linarith
qed

lemma round_half_even_int: "round_half_even (of_int n) = n"
  by (simp add: round_half_even_def)

lemma round_half_even_range:
  "round_half_even r = \<lfloor>r\<rfloor> \<or> round_half_even r = \<lfloor>r\<rfloor> + 1"
  by (simp add: round_half_even_def Let_def)

lemma round_half_even_mono:
  assumes "r \<le> s"
  shows "round_half_even r \<le> round_half_even s"
proof (cases "\<lfloor>r\<rfloor> = \<lfloor>s\<rfloor>")
  case True
  then have "r - of_int \<lfloor>r\<rfloor> \<le> s - of_int \<lfloor>s\<rfloor>"
    using assms by simp
  then show ?thesis
    using True unfolding round_half_even_def Let_def by auto
next
  case False
  then have "\<lfloor>r\<rfloor> < \<lfloor>s\<rfloor>"
    using assms floor_mono [of r s] by linarith
  then show ?thesis
    using round_half_even_range [of r] round_half_even_range [of s] by linarith
qed
lemma grid64_eq: "grid64 X = 2 ^ (bits (nat \<lfloor>X\<rfloor>) - 53)"
  by (simp add: grid64_def Let_def)

lemma grid64_pos: "0 < grid64 X"
  by (simp add: grid64_eq)

text \<open>
  A scaled magnitude is representable when it is a natural number that is a multiple of
  the spacing of its binade.
\<close>

lemma round_mag_multiple:
  assumes "X = of_int n * grid64 X"
  shows "round_mag X = X"
proof -
  have "X / grid64 X = of_int n"
    using assms grid64_pos [of X] by (metis less_irrefl nonzero_eq_divide_eq)
  then show ?thesis
    using assms by (simp add: round_mag_def round_half_even_int)
qed

lemma round_mag_of_nat:
  assumes "2 ^ (bits a - 53) dvd a"
  shows "round_mag (of_nat a) = of_nat a"
proof -
  obtain q where q: "a = 2 ^ (bits a - 53) * q"
    using assms by (auto simp add: dvd_def)
  have g: "grid64 (of_nat a) = 2 ^ (bits a - 53)"
    by (simp add: grid64_eq)
  have "(of_nat a :: rat) = of_nat (2 ^ (bits a - 53) * q)"
    using q by simp
  then have "(of_nat a :: rat) = of_int (int q) * grid64 (of_nat a)"
    unfolding g by simp
  then show ?thesis
    by (rule round_mag_multiple)
qed

lemma representable_multiple:
  assumes "a = n * 2 ^ j" and "bits a - 53 \<le> j"
  shows "2 ^ (bits a - 53) dvd a"
proof -
  have "(2::nat) ^ (bits a - 53) dvd 2 ^ j"
    using assms(2) by (simp add: le_imp_power_dvd)
  then show ?thesis
    using assms(1) by simp
qed

lemma round_mag_exact:
  assumes "m < 2 ^ 53"
  shows "round_mag (of_nat (m * 2 ^ e)) = of_nat (m * 2 ^ e)"
proof -
  have "m * 2 ^ e < 2 ^ 53 * 2 ^ e"
    using assms by simp
  then have "m * 2 ^ e < 2 ^ (53 + e)"
    by (simp add: power_add)
  then have "bits (m * 2 ^ e) \<le> 53 + e"
  proof (cases "m * 2 ^ e = 0")
    case True
    then show ?thesis by (simp add: bits_zero)
  next
    case False
    assume "m * 2 ^ e < 2 ^ (53 + e)"
    then have "(2::nat) ^ (bits (m * 2 ^ e) - 1) < 2 ^ (53 + e)"
      using bits_lower [of "m * 2 ^ e"] False by linarith
    then have "bits (m * 2 ^ e) - 1 < 53 + e"
      using power_less_imp_less_exp [of "2::nat" "bits (m * 2 ^ e) - 1" "53 + e"] by simp
    then show ?thesis by linarith
  qed
  then have "bits (m * 2 ^ e) - 53 \<le> e"
    by linarith
  then have "2 ^ (bits (m * 2 ^ e) - 53) dvd m * 2 ^ e"
    using representable_multiple [of "m * 2 ^ e" m e] by simp
  then show ?thesis
    by (rule round_mag_of_nat)
qed

text \<open>The rounded magnitude is a natural number \<open>n * g\<close> that does not leave the binade.\<close>

lemma round_mag_form:
  assumes "0 \<le> X"
  defines "k \<equiv> bits (nat \<lfloor>X\<rfloor>)"
  shows "\<exists>n. round_mag X = of_nat (n * 2 ^ (k - 53)) \<and> n * 2 ^ (k - 53) \<le> 2 ^ k"
proof -
  let ?g = "(2::rat) ^ (k - 53)"
  have g: "grid64 X = ?g"
    by (simp add: grid64_eq k_def)
  have "nat \<lfloor>X\<rfloor> < 2 ^ k"
    unfolding k_def by (rule bits_upper)
  then have "\<lfloor>X\<rfloor> < 2 ^ k"
    using assms(1) by (simp add: nat_less_iff)
  then have "X < 2 ^ k"
    by (metis floor_less_iff of_int_numeral of_int_power)
  then have "X / ?g < 2 ^ k / ?g"
    by (simp add: divide_strict_right_mono)
  moreover have "(2::rat) ^ k / ?g = 2 ^ (k - (k - 53))"
    by (simp add: power_diff)
  ultimately have "X / ?g \<le> of_int (2 ^ (k - (k - 53)))"
    by simp
  then have "round_half_even (X / ?g) \<le> round_half_even (of_int (2 ^ (k - (k - 53))))"
    by (rule round_half_even_mono)
  then have up: "round_half_even (X / ?g) \<le> 2 ^ (k - (k - 53))"
    by (simp only: round_half_even_int)
  have "(0::rat) \<le> X / ?g"
    using assms(1) by simp
  then have "round_half_even (of_int 0) \<le> round_half_even (X / ?g)"
    by (simp only: of_int_0 round_half_even_mono)
  then have lo: "0 \<le> round_half_even (X / ?g)"
    by (simp only: round_half_even_int)
  define n where "n = nat (round_half_even (X / ?g))"
  have n: "round_half_even (X / ?g) = int n"
    using lo by (simp add: n_def)
  have "int n \<le> 2 ^ (k - (k - 53))"
    using up n by simp
  then have "n \<le> 2 ^ (k - (k - 53))"
    by (metis of_nat_le_iff of_nat_numeral of_nat_power)
  then have "n * 2 ^ (k - 53) \<le> 2 ^ (k - (k - 53)) * 2 ^ (k - 53)"
    by simp
  also have "\<dots> = 2 ^ k"
    by (simp add: power_add [symmetric])
  finally have "n * 2 ^ (k - 53) \<le> 2 ^ k" .
  moreover have "round_mag X = of_nat (n * 2 ^ (k - 53))"
    by (simp add: round_mag_def g n)
  ultimately show ?thesis
    by blast
qed

lemma round_mag_idem:
  assumes "0 \<le> X"
  shows "round_mag (round_mag X) = round_mag X"
proof -
  define k where "k = bits (nat \<lfloor>X\<rfloor>)"
  obtain n where r: "round_mag X = of_nat (n * 2 ^ (k - 53))" and le: "n * 2 ^ (k - 53) \<le> 2 ^ k"
    using round_mag_form [OF assms] unfolding k_def by blast
  let ?a = "n * 2 ^ (k - 53)"
  have "bits ?a \<le> bits (2 ^ k)"
    using le by (rule bits_mono)
  also have "\<dots> = Suc k"
    by (rule bits_unique) simp_all
  finally have "bits ?a - 53 \<le> k - 53 \<or> ?a = 2 ^ k"
  proof -
    assume b: "bits ?a \<le> Suc k"
    show ?thesis
    proof (cases "?a = 2 ^ k")
      case True
      then show ?thesis by simp
    next
      case False
      then have "?a < 2 ^ k"
        using le by linarith
      then have "bits ?a \<le> k"
      proof (cases "?a = 0")
        case True
        then show ?thesis by (simp add: bits_zero)
      next
        case False
        assume "?a < 2 ^ k"
        then have "(2::nat) ^ (bits ?a - 1) < 2 ^ k"
          using bits_lower [of ?a] False by linarith
        then have "bits ?a - 1 < k"
          using power_less_imp_less_exp [of "2::nat" "bits ?a - 1" k] by simp
        then show ?thesis by linarith
      qed
      then show ?thesis by linarith
    qed
  qed
  then have "2 ^ (bits ?a - 53) dvd ?a"
  proof
    assume "bits ?a - 53 \<le> k - 53"
    then show ?thesis
      using representable_multiple [of ?a n "k - 53"] by simp
  next
    assume e: "?a = 2 ^ k"
    have "bits ?a = Suc k"
      unfolding e by (rule bits_unique) simp_all
    then have "bits ?a - 53 \<le> k"
      by linarith
    then have "(2::nat) ^ (bits ?a - 53) dvd 2 ^ k"
      by (simp add: le_imp_power_dvd)
    then show ?thesis
      using e by simp
  qed
  then have "round_mag (of_nat ?a) = of_nat ?a"
    by (rule round_mag_of_nat)
  then show ?thesis
    using r by simp
qed

lemma round_mag_nonneg: "0 \<le> X \<Longrightarrow> 0 \<le> round_mag X"
  using round_mag_form [of X] by (metis of_nat_0_le_iff)
lemma round_mag_upper:
  assumes "0 \<le> X"
  shows "round_mag X \<le> 2 ^ bits (nat \<lfloor>X\<rfloor>)"
proof -
  obtain n where "round_mag X = of_nat (n * 2 ^ (bits (nat \<lfloor>X\<rfloor>) - 53))"
    and "n * 2 ^ (bits (nat \<lfloor>X\<rfloor>) - 53) \<le> 2 ^ bits (nat \<lfloor>X\<rfloor>)"
    using round_mag_form [OF assms] by blast
  then show ?thesis
    by (metis of_nat_le_iff of_nat_numeral of_nat_power)
qed

lemma round_mag_lower:
  assumes "0 \<le> Y" and "53 < bits (nat \<lfloor>Y\<rfloor>)"
  shows "2 ^ (bits (nat \<lfloor>Y\<rfloor>) - 1) \<le> round_mag Y"
proof -
  define k where "k = bits (nat \<lfloor>Y\<rfloor>)"
  let ?g = "(2::rat) ^ (k - 53)"
  have k: "53 < k"
    using assms(2) by (simp add: k_def)
  have g: "grid64 Y = ?g"
    by (simp add: grid64_eq k_def)
  have pos: "0 < nat \<lfloor>Y\<rfloor>"
    using assms(2) by (cases "nat \<lfloor>Y\<rfloor> = 0") (simp_all add: bits_zero)
  have "2 ^ (k - 1) \<le> nat \<lfloor>Y\<rfloor>"
    unfolding k_def using pos by (rule bits_lower)
  then have "(2::int) ^ (k - 1) \<le> \<lfloor>Y\<rfloor>"
    using pos by (metis nat_le_iff of_nat_numeral of_nat_power zless_nat_conj le_nat_iff
        less_imp_le zero_le_floor assms(1))
  then have "(2::rat) ^ (k - 1) \<le> Y"
    by (metis le_floor_iff of_int_numeral of_int_power)
  then have "(2::rat) ^ (k - 1) / ?g \<le> Y / ?g"
    by (simp add: divide_right_mono)
  moreover have "(2::rat) ^ (k - 1) / ?g = 2 ^ 52"
  proof -
    have "k - 1 = 52 + (k - 53)"
      using k by linarith
    then have "(2::rat) ^ (k - 1) = 2 ^ 52 * ?g"
      by (simp only: power_add)
    then show ?thesis by simp
  qed
  ultimately have "of_int (2 ^ 52) \<le> Y / ?g"
    by simp
  then have "round_half_even (of_int (2 ^ 52)) \<le> round_half_even (Y / ?g)"
    by (rule round_half_even_mono)
  then have "2 ^ 52 \<le> round_half_even (Y / ?g)"
    by (simp only: round_half_even_int)
  then have "(2::rat) ^ 52 \<le> of_int (round_half_even (Y / ?g))"
    by (metis of_int_le_iff of_int_numeral of_int_power)
  then have a: "(2::rat) ^ 52 * ?g \<le> of_int (round_half_even (Y / ?g)) * ?g"
    by (simp add: mult_right_mono)
  have "k - 1 = 52 + (k - 53)"
    using k by linarith
  then have "(2::rat) ^ (k - 1) = 2 ^ 52 * ?g"
    by (simp only: power_add)
  also note a
  also have "of_int (round_half_even (Y / ?g)) * ?g = round_mag Y"
    by (simp only: round_mag_def g)
  finally show ?thesis
    unfolding k_def .
qed

lemma round_mag_mono:
  assumes "0 \<le> X" and "X \<le> Y"
  shows "round_mag X \<le> round_mag Y"
proof -
  define kx where "kx = bits (nat \<lfloor>X\<rfloor>)"
  define ky where "ky = bits (nat \<lfloor>Y\<rfloor>)"
  have "nat \<lfloor>X\<rfloor> \<le> nat \<lfloor>Y\<rfloor>"
    using assms(2) by (simp add: floor_mono nat_mono)
  then have kk: "kx \<le> ky"
    unfolding kx_def ky_def by (rule bits_mono)
  show ?thesis
  proof (cases "kx - 53 = ky - 53")
    case True
    then have g: "grid64 Y = grid64 X"
      by (simp add: grid64_eq kx_def ky_def)
    have "X / grid64 X \<le> Y / grid64 X"
      using assms(2) grid64_pos [of X] by (simp add: divide_right_mono)
    then have "round_half_even (X / grid64 X) \<le> round_half_even (Y / grid64 X)"
      by (rule round_half_even_mono)
    then have "(of_int (round_half_even (X / grid64 X)) :: rat)
        \<le> of_int (round_half_even (Y / grid64 X))"
      by simp
    then show ?thesis
      using grid64_pos [of X] by (simp add: round_mag_def g mult_right_mono)
  next
    case False
    then have big: "53 < ky" and lt: "kx < ky"
      using kk by linarith+
    have "round_mag X \<le> 2 ^ kx"
      unfolding kx_def using assms(1) by (rule round_mag_upper)
    also have "(2::rat) ^ kx \<le> 2 ^ (ky - 1)"
      using lt by (simp add: power_increasing)
    also have "(2::rat) ^ (ky - 1) \<le> round_mag Y"
      unfolding ky_def using assms big by (intro round_mag_lower) (simp_all add: ky_def)
    finally show ?thesis .
  qed
qed

lemma scale64_pos: "0 < scale64"
  by (simp only: scale64_def zero_less_power zero_less_numeral)

lemma scale64_split: "scale64 = 2 ^ 52 * 2 ^ 1022"
proof -
  have e: "(1074::nat) = 52 + 1022"
    by simp
  show ?thesis
    unfolding scale64_def by (subst e) (rule power_add)
qed

lemma overflow64_nat: "overflow64 = of_nat (2 ^ 2098)"
  by (simp only: overflow64_def of_nat_power of_nat_numeral)

lemma power_times_scale64: "2 ^ e * scale64 = 2 ^ (e + 1074)"
  by (simp only: scale64_def power_add)

lemma cancel_scale: "c \<noteq> 0 \<Longrightarrow> a * (p * c) / (q * c) = a * p / (q::rat)"
  by simp

lemma two_power_1022: "(2::rat) ^ 1022 \<noteq> 0"
  by (rule power_not_zero) simp

lemma round_mag_zero: "round_mag 0 = 0"
  using round_mag_exact [of 0 0] by simp

lemma round64_nonneg:
  assumes "0 \<le> x"
  shows "round64 x =
     (if overflow64 \<le> round_mag (x * scale64) then PInf
      else Fin (round_mag (x * scale64) / scale64))"
proof (cases "x = 0")
  case True
  have "\<not> overflow64 \<le> 0"
    by (simp only: overflow64_def not_le zero_less_power zero_less_numeral)
  then show ?thesis
    using True by (simp add: round64_def round_mag_zero)
next
  case False
  then have "0 < x"
    using assms by simp
  then show ?thesis
    by (simp add: round64_def Let_def)
qed

lemma round64_mono:
  assumes "0 \<le> x" and "x \<le> y"
  shows "fle (round64 x) (round64 y)"
proof -
  have "0 \<le> x * scale64" and "x * scale64 \<le> y * scale64"
    using assms scale64_pos by (simp_all add: mult_right_mono)
  then have "round_mag (x * scale64) \<le> round_mag (y * scale64)"
    by (rule round_mag_mono)
  moreover have "0 \<le> y"
    using assms by simp
  ultimately show ?thesis
    using assms(1) scale64_pos by (simp add: round64_nonneg divide_right_mono)
qed

lemma round64_idem:
  assumes "0 \<le> x" and "round64 x = Fin r"
  shows "0 \<le> r \<and> round64 r = Fin r"
proof -
  let ?R = "round_mag (x * scale64)"
  have X: "0 \<le> x * scale64"
    using assms(1) scale64_pos by simp
  have small: "\<not> overflow64 \<le> ?R" and r: "r = ?R / scale64"
    using assms by (simp_all add: round64_nonneg split: if_splits)
  have R: "0 \<le> ?R"
    using X by (rule round_mag_nonneg)
  then have r0: "0 \<le> r"
    using r scale64_pos by simp
  have "r * scale64 = ?R"
    using r scale64_pos by simp
  then have "round_mag (r * scale64) = ?R"
    using round_mag_idem [OF X] by simp
  then have "round64 r = Fin r"
    using r0 small r by (simp add: round64_nonneg)
  then show ?thesis
    using r0 by simp
qed

lemma round64_exact:
  assumes "m < 2 ^ 53" and "m * 2 ^ e < 2 ^ 2098" and "x = of_nat (m * 2 ^ e) / scale64"
  shows "round64 x = Fin x"
proof -
  have "x * scale64 = of_nat (m * 2 ^ e)"
    using assms(3) scale64_pos by simp
  then have R: "round_mag (x * scale64) = of_nat (m * 2 ^ e)"
    using round_mag_exact [OF assms(1), of e] by simp
  have "(of_nat (m * 2 ^ e) :: rat) < of_nat (2 ^ 2098)"
    using assms(2) by (simp only: of_nat_less_iff)
  then have "\<not> overflow64 \<le> of_nat (m * 2 ^ e)"
    by (simp only: overflow64_nat not_le)
  moreover have "(0::rat) \<le> of_nat (m * 2 ^ e)"
    by (rule of_nat_0_le_iff)
  then have "0 \<le> x"
    unfolding assms(3) using scale64_pos by (simp only: divide_nonneg_pos)
  ultimately show ?thesis
    using R assms(3) by (simp only: round64_nonneg if_False)
qed

lemma round64_of_nat:
  assumes "n < 2 ^ 53"
  shows "round64 (of_nat n) = Fin (of_nat n)"
proof (rule round64_exact [of n 1074])
  show "n < 2 ^ 53"
    by (rule assms)
  have "n * 2 ^ 1074 < 2 ^ 53 * 2 ^ 1074"
    using assms by (simp only: mult_less_cancel2 zero_less_power zero_less_numeral simp_thms)
  also have "(2::nat) ^ 53 * 2 ^ 1074 = 2 ^ (53 + 1074)"
    by (simp only: power_add)
  also have "(2::nat) ^ (53 + 1074) \<le> 2 ^ 2098"
    by (rule power_increasing) simp_all
  finally show "n * 2 ^ 1074 < 2 ^ 2098" .
  have h: "(of_nat (n * 2 ^ 1074) :: rat) = of_nat n * scale64"
    by (simp only: scale64_def of_nat_mult of_nat_power of_nat_numeral)
  have nz: "scale64 \<noteq> 0"
    using scale64_pos by simp
  show "(of_nat n :: rat) = of_nat (n * 2 ^ 1074) / scale64"
    unfolding h using nz by simp
qed

lemma float64_of_int_exact:
  assumes "0 \<le> n" and "n < 2 ^ 53"
  shows "float64_of_int n = Fin (of_int n)"
proof -
  have "int (nat n) < int (2 ^ 53)"
    using assms by (simp only: int_nat_eq of_nat_power of_nat_numeral if_True)
  then have "nat n < 2 ^ 53"
    by (simp only: of_nat_less_iff)
  then have "round64 (of_nat (nat n)) = Fin (of_nat (nat n))"
    by (rule round64_of_nat)
  moreover have "(of_nat (nat n) :: rat) = of_int n"
    using assms(1) by simp
  ultimately show ?thesis
    by (simp add: float64_of_int_def)
qed

text \<open>Rounding inside a binade \<open>[2 ^ e, 2 ^ (e + 1))\<close> of numbers from 1 on.\<close>

lemma round64_binade:
  assumes "2 ^ e \<le> x" and "x < 2 ^ Suc e" and "e < 1023"
  shows "round64 x = Fin (of_int (round_half_even (x * 2 ^ 52 / 2 ^ e)) * 2 ^ e / 2 ^ 52)"
proof -
  let ?X = "x * scale64"
  have x0: "0 \<le> x"
    using assms(1) by (meson order_trans zero_le_numeral zero_le_power)
  have "2 ^ e * scale64 \<le> ?X" and "?X < 2 ^ Suc e * scale64"
    using assms(1,2) scale64_pos by (simp_all only: mult_le_cancel_right_pos mult_less_cancel_right_pos)
  then have "(2::rat) ^ (e + 1074) \<le> ?X" and "?X < 2 ^ (Suc e + 1074)"
    by (simp_all only: power_times_scale64)
  then have "of_int (2 ^ (e + 1074)) \<le> ?X" and "?X < of_int (2 ^ Suc (e + 1074))"
    by (simp_all only: of_int_power of_int_numeral add_Suc)
  then have "(2::int) ^ (e + 1074) \<le> \<lfloor>?X\<rfloor>" and "\<lfloor>?X\<rfloor> < 2 ^ Suc (e + 1074)"
    by (simp_all only: le_floor_iff floor_less_iff)
  then have "int (2 ^ (e + 1074)) \<le> \<lfloor>?X\<rfloor>" and "\<lfloor>?X\<rfloor> < int (2 ^ Suc (e + 1074))"
    by (simp_all only: of_nat_power of_nat_numeral)
  then have "2 ^ (e + 1074) \<le> nat \<lfloor>?X\<rfloor>" and "nat \<lfloor>?X\<rfloor> < 2 ^ Suc (e + 1074)"
    by linarith+
  then have b: "bits (nat \<lfloor>?X\<rfloor>) = Suc (e + 1074)"
    by (rule bits_unique)
  have "Suc (e + 1074) - 53 = e + 1022"
    by simp
  then have g: "grid64 ?X = 2 ^ (e + 1022)"
    by (simp only: grid64_eq b)
  have q: "?X / 2 ^ (e + 1022) = x * 2 ^ 52 / 2 ^ e"
  proof -
    have "x * (2 ^ 52 * 2 ^ 1022) / (2 ^ e * 2 ^ 1022) = x * 2 ^ 52 / 2 ^ e"
      using two_power_1022 by (rule cancel_scale)
    then show ?thesis
      by (simp only: scale64_split power_add)
  qed
  have R: "round_mag ?X = of_int (round_half_even (x * 2 ^ 52 / 2 ^ e)) * 2 ^ (e + 1022)"
    by (simp only: round_mag_def g q)
  have X0: "0 \<le> ?X"
    using x0 scale64_pos by simp
  have "(2::rat) ^ Suc (e + 1074) \<le> 2 ^ 2097"
    using assms(3) by (intro power_increasing) simp_all
  also have "(2::rat) ^ 2097 < 2 ^ 2098"
    by (rule power_strict_increasing) simp_all
  finally have "(2::rat) ^ bits (nat \<lfloor>?X\<rfloor>) < overflow64"
    by (simp only: b overflow64_def)
  moreover have "round_mag ?X \<le> 2 ^ bits (nat \<lfloor>?X\<rfloor>)"
    using X0 by (rule round_mag_upper)
  ultimately have small: "\<not> overflow64 \<le> round_mag ?X"
    by linarith
  have "round_mag ?X / scale64
      = of_int (round_half_even (x * 2 ^ 52 / 2 ^ e)) * 2 ^ (e + 1022) / scale64"
    by (simp only: R)
  also have "\<dots> = of_int (round_half_even (x * 2 ^ 52 / 2 ^ e)) * (2 ^ e * 2 ^ 1022)
      / (2 ^ 52 * 2 ^ 1022)"
    by (simp only: scale64_split power_add)
  also have "\<dots> = of_int (round_half_even (x * 2 ^ 52 / 2 ^ e)) * 2 ^ e / (2 ^ 52 :: rat)"
    using two_power_1022 by (rule cancel_scale)
  finally have "round_mag ?X / scale64
      = of_int (round_half_even (x * 2 ^ 52 / 2 ^ e)) * 2 ^ e / 2 ^ 52" .
  then show ?thesis
    using x0 small by (simp only: round64_nonneg if_False)
qed

text \<open>Rounding a fraction of integers, by integer division.\<close>

lemma round_half_even_fraction:
  assumes "0 < d"
  shows "round_half_even (of_int n / of_int d) =
     (if 2 * (n mod d) < d then n div d
      else if d < 2 * (n mod d) then n div d + 1
      else if even (n div d) then n div d else n div d + 1)"
proof -
  have fl: "\<lfloor>(of_int n / of_int d :: rat)\<rfloor> = n div d"
    by (rule floor_divide_of_int_eq)
  have "(of_int n :: rat) = of_int (n div d) * of_int d + of_int (n mod d)"
    by (metis div_mult_mod_eq of_int_add of_int_mult)
  then have fr: "(of_int n / of_int d :: rat) - of_int (n div d) = of_int (n mod d) / of_int d"
    using assms by (simp add: field_simps)
  have lt: "(of_int (n mod d) / of_int d :: rat) < 1 / 2 \<longleftrightarrow> 2 * (n mod d) < d"
  proof -
    have "(of_int (n mod d) / of_int d :: rat) < 1 / 2 \<longleftrightarrow> (of_int (2 * (n mod d)) :: rat) < of_int d"
      using assms by (simp add: field_simps)
    then show ?thesis
      by (simp only: of_int_less_iff)
  qed
  have gt: "(1 / 2 :: rat) < of_int (n mod d) / of_int d \<longleftrightarrow> d < 2 * (n mod d)"
  proof -
    have "(1 / 2 :: rat) < of_int (n mod d) / of_int d \<longleftrightarrow> (of_int d :: rat) < of_int (2 * (n mod d))"
      using assms by (simp add: field_simps)
    then show ?thesis
      by (simp only: of_int_less_iff)
  qed
  show ?thesis
    unfolding round_half_even_def Let_def fl fr lt gt ..
qed

lemma round64_fraction:
  assumes "0 < d" and "2 ^ e * of_int d \<le> (of_int n :: rat)"
    and "(of_int n :: rat) < 2 ^ Suc e * of_int d" and "e < 1023"
  shows "round64 (of_int n / of_int d) =
     Fin (of_int
       (if 2 * ((n * 2 ^ 52) mod (d * 2 ^ e)) < d * 2 ^ e then (n * 2 ^ 52) div (d * 2 ^ e)
        else if d * 2 ^ e < 2 * ((n * 2 ^ 52) mod (d * 2 ^ e)) then (n * 2 ^ 52) div (d * 2 ^ e) + 1
        else if even ((n * 2 ^ 52) div (d * 2 ^ e)) then (n * 2 ^ 52) div (d * 2 ^ e)
        else (n * 2 ^ 52) div (d * 2 ^ e) + 1) * 2 ^ e / 2 ^ 52)"
proof -
  have d: "(0::rat) < of_int d"
    using assms(1) by simp
  have "2 ^ e \<le> (of_int n / of_int d :: rat)" and "(of_int n / of_int d :: rat) < 2 ^ Suc e"
    using assms(2,3) d by (simp_all add: pos_le_divide_eq pos_divide_less_eq)
  then have "round64 (of_int n / of_int d) =
      Fin (of_int (round_half_even (of_int n / of_int d * 2 ^ 52 / 2 ^ e)) * 2 ^ e / 2 ^ 52)"
    using assms(4) by (rule round64_binade)
  moreover have "(of_int n / of_int d * 2 ^ 52 / 2 ^ e :: rat) = of_int (n * 2 ^ 52) / of_int (d * 2 ^ e)"
    by simp
  moreover have "0 < d * 2 ^ e"
    using assms(1) by simp
  ultimately show ?thesis
    by (simp only: round_half_even_fraction)
qed


lemma fdiv_1200_628:
  "fdiv (float64_of_int 1200) (float64_of_int 628) = Fin (8605604383510502 / 2 ^ 52)"
proof -
  have "round64 (of_int 1200 / of_int 628) = Fin (8605604383510502 / 2 ^ 52)"
    using round64_fraction [of 628 0 1200] by simp
  then show ?thesis
    by (simp add: float64_of_int_exact)
qed

subsection \<open>Backoff delay\<close>




lemma round64_cases:
  assumes "0 \<le> x"
  shows "round64 x = PInf \<or> (\<exists>r. round64 x = Fin r \<and> 0 \<le> r \<and> round64 r = Fin r)"
proof (cases "round64 x")
  case (Fin r)
  then show ?thesis
    using round64_idem [OF assms] by simp
next
  case PInf
  then show ?thesis by simp
next
  case NInf
  then show ?thesis
    using assms by (simp add: round64_nonneg split: if_splits)
next
  case NaN
  then show ?thesis
    using assms by (simp add: round64_nonneg split: if_splits)
qed






lemma trunc_nonneg: "0 \<le> r \<Longrightarrow> trunc r = \<lfloor>r\<rfloor>"
  by (simp add: trunc_def)





lemma trunc_numeral: "trunc (numeral n) = numeral n"
  by (simp add: trunc_def)







subsection \<open>Adaptive resizer\<close>

lemma fdiv_1920_1080:
  "fdiv (float64_of_int 1920) (float64_of_int 1080) = Fin (8006399337547548 / 2 ^ 52)"
proof -
  have "round64 (of_int 1920 / of_int 1080) = Fin (8006399337547548 / 2 ^ 52)"
    using round64_fraction [of 1080 0 1920] by simp
  then show ?thesis
    by (simp add: float64_of_int_exact)
qed

lemma fmul_1080_ratio:
  "fmul (float64_of_int 1080) (Fin (8605604383510502 / 2 ^ 52))
     = Fin (2269055843308433 / 2 ^ 40)"
proof -
  have "round64 (of_int (1080 * 8605604383510502) / of_int (2 ^ 52))
      = Fin (2269055843308433 / 2 ^ 40)"
    using round64_fraction [of "2 ^ 52" 11 "1080 * 8605604383510502"] by simp
  then show ?thesis
    by (simp add: float64_of_int_exact)
qed

lemma trunc_new_width: "trunc (2269055843308433 / 1099511627776) = 2063"
proof -
  have "\<lfloor>2269055843308433 / 1099511627776 :: rat\<rfloor> = 2063"
    by (rule floor_unique) simp_all
  then show ?thesis
    by (simp add: trunc_def)
qed

lemma SmartCrop_1920_1080:
  assumes "Dx (Bounds lib img) = 1920" and "Dy (Bounds lib img) = 1080"
  shows "SmartCrop oor lib img 1200 628 =
     Sharpen lib (Fill lib (Resize lib img 0 628 Lanczos) 1200 628 Center Lanczos) (Fin (1 / 2))"
  unfolding SmartCrop_def Let_def assms fdiv_1200_628 fdiv_1920_1080 fmul_1080_ratio
  by (simp add: trunc_new_width)
lemma ratio_1920_1080_lt:
  "flt (fdiv (float64_of_int 1920) (float64_of_int 1080))
       (fdiv (float64_of_int 1200) (float64_of_int 628))
   \<and> \<not> flt (fdiv (float64_of_int 1200) (float64_of_int 628))
           (fdiv (float64_of_int 1920) (float64_of_int 1080))"
  unfolding fdiv_1200_628 fdiv_1920_1080 by simp

lemma new_width_1920_1080:
  "int_of_float64 oor (fmul (float64_of_int 1080)
       (fdiv (float64_of_int 1200) (float64_of_int 628))) = 2063"
  unfolding fdiv_1200_628 fmul_1080_ratio by (simp add: trunc_new_width)

lemma fdiv_1920_ratio:
  "fdiv (float64_of_int 1920) (Fin (8605604383510502 / 2 ^ 52))
     = Fin (4419157134357299 / 2 ^ 42)"
proof -
  have "round64 (of_int (1920 * 2 ^ 52) / of_int 8605604383510502)
      = Fin (4419157134357299 / 2 ^ 42)"
    using round64_fraction [of 8605604383510502 9 "1920 * 2 ^ 52"] by simp
  then show ?thesis
    by (simp add: float64_of_int_exact)
qed

lemma trunc_new_height_1920: "trunc (4419157134357299 / 4398046511104) = 1004"
proof -
  have "\<lfloor>4419157134357299 / 4398046511104 :: rat\<rfloor> = 1004"
    by (rule floor_unique) simp_all
  then show ?thesis
    by (simp add: trunc_def)
qed

lemma new_height_1920_1080:
  "int_of_float64 oor (fdiv (float64_of_int 1920)
       (fdiv (float64_of_int 1200) (float64_of_int 628))) = 1004"
  unfolding fdiv_1200_628 fdiv_1920_ratio by (simp add: trunc_new_height_1920)

text \<open>
  Claim C9 does not hold of the code. For a 1920 by 1080 source and the 1200 by 628
  target the ratio of the source (1.78) is below the ratio of the target (1.91), so
  \<open>SmartCrop\<close> takes the branch under \<open>originalRatio < targetRatio\<close>. The width
  computed there is 2063, more than the 1920 of the source, and the ratio step scales
  the whole source to the height 628: the trace of the library calls holds this scaling,
  the centered fill pass and the sharpening, and no crop. The top-aligned crop to the
  full width stands in the other branch, under \<open>originalRatio > targetRatio\<close>; the
  height that this branch computes, for this source 1004, fits within the 1080 of the
  source.
\<close>

theorem SmartCrop_1920_1080_no_crop:
  "flt (fdiv (float64_of_int 1920) (float64_of_int 1080))
       (fdiv (float64_of_int 1200) (float64_of_int 628))
   \<and> \<not> flt (fdiv (float64_of_int 1200) (float64_of_int 628))
           (fdiv (float64_of_int 1920) (float64_of_int 1080))
   \<and> int_of_float64 oor_amd64 (fmul (float64_of_int 1080)
        (fdiv (float64_of_int 1200) (float64_of_int 628))) = 2063
   \<and> SmartCrop oor_amd64 traced (Source (image_Rect 0 0 1920 1080)) 1200 628
       = Sharpened
           (Filled (Resized (Source (image_Rect 0 0 1920 1080)) 0 628 Lanczos)
              1200 628 Center Lanczos)
           (Fin (1 / 2))
   \<and> int_of_float64 oor_amd64 (fdiv (float64_of_int 1920)
        (fdiv (float64_of_int 1200) (float64_of_int 628))) = 1004"
proof -
  have "Dx (Bounds traced (Source (image_Rect 0 0 1920 1080))) = 1920"
    and "Dy (Bounds traced (Source (image_Rect 0 0 1920 1080))) = 1080"
    by (simp_all add: traced_def image_Rect_def Dx_def Dy_def)
  then have "SmartCrop oor_amd64 traced (Source (image_Rect 0 0 1920 1080)) 1200 628
      = Sharpen traced
          (Fill traced (Resize traced (Source (image_Rect 0 0 1920 1080)) 0 628 Lanczos)
             1200 628 Center Lanczos)
          (Fin (1 / 2))"
    by (rule SmartCrop_1920_1080)
  then show ?thesis
    using ratio_1920_1080_lt new_width_1920_1080 [of oor_amd64]
      new_height_1920_1080 [of oor_amd64]
    by (simp add: traced_def)
qed

text \<open>Rounding does not move a number across a binary64 number.\<close>

lemma round64_above:
  assumes "0 \<le> x" and "round64 t = Fin t" and "round64 x = Fin r" and "t < r"
  shows "t < x"
proof (rule ccontr)
  assume "\<not> t < x"
  then have "x \<le> t"
    by simp
  then have "fle (round64 x) (round64 t)"
    using assms(1) by (intro round64_mono)
  then show False
    using assms(2,3,4) by simp
qed

lemma round64_below:
  assumes "0 \<le> t" and "round64 t = Fin t" and "round64 x = Fin r" and "r < t"
  shows "x < t"
proof (rule ccontr)
  assume "\<not> x < t"
  then have "t \<le> x"
    by simp
  then have "fle (round64 t) (round64 x)"
    using assms(1) by (intro round64_mono)
  then show False
    using assms(2,3,4) by simp
qed

lemma round64_two_power:
  assumes "k \<le> 1000"
  shows "round64 (2 ^ k) = Fin (2 ^ k)"
proof (rule round64_exact [of 1 "k + 1074"])
  show "(1::nat) < 2 ^ 53"
    by simp
  have "(2::nat) ^ (k + 1074) < 2 ^ 2098"
    using assms by (intro power_strict_increasing) simp_all
  then show "1 * 2 ^ (k + 1074) < (2::nat) ^ 2098"
    by simp
  have "(of_nat (1 * 2 ^ (k + 1074)) :: rat) = 2 ^ k * scale64"
    by (simp only: scale64_def power_add mult_1 of_nat_mult of_nat_power of_nat_numeral)
  moreover have "scale64 \<noteq> 0"
    using scale64_pos by simp
  ultimately show "(2::rat) ^ k = of_nat (1 * 2 ^ (k + 1074)) / scale64"
    by simp
qed

lemma round64_inverse_two_power:
  assumes "k \<le> 1000"
  shows "round64 (1 / 2 ^ k) = Fin (1 / 2 ^ k)"
proof (rule round64_exact [of 1 "1074 - k"])
  show "(1::nat) < 2 ^ 53"
    by simp
  have "(2::nat) ^ (1074 - k) < 2 ^ 2098"
    by (intro power_strict_increasing) simp_all
  then show "1 * 2 ^ (1074 - k) < (2::nat) ^ 2098"
    by simp
  have "1074 = (1074 - k) + k"
    using assms by simp
  then have s: "scale64 = 2 ^ (1074 - k) * 2 ^ k"
    unfolding scale64_def by (metis power_add)
  have n: "(of_nat (1 * 2 ^ (1074 - k)) :: rat) = 2 ^ (1074 - k)"
    by (simp only: mult_1 of_nat_power of_nat_numeral)
  have "(2::rat) ^ (1074 - k) / (2 ^ (1074 - k) * 2 ^ k) = 1 / 2 ^ k"
    by simp
  then show "(1::rat) / 2 ^ k = of_nat (1 * 2 ^ (1074 - k)) / scale64"
    unfolding n s by simp
qed

text \<open>A number between two powers of two rounds to a number between them.\<close>

lemma round64_between:
  assumes "1 / 2 ^ j \<le> x" and "x \<le> 2 ^ k" and "j \<le> 1000" and "k \<le> 1000"
  shows "\<exists>r. round64 x = Fin r \<and> 1 / 2 ^ j \<le> r \<and> r \<le> 2 ^ k \<and> round64 r = Fin r"
proof -
  have x0: "0 \<le> x"
    using assms(1) by (meson order_trans zero_le_divide_1_iff zero_le_numeral zero_le_power)
  have lo: "fle (Fin (1 / 2 ^ j)) (round64 x)"
    using round64_mono [of "1 / 2 ^ j" x] assms(1,3) by (simp add: round64_inverse_two_power)
  have hi: "fle (round64 x) (Fin (2 ^ k))"
    using round64_mono [OF x0 assms(2)] assms(4) by (simp add: round64_two_power)
  from round64_cases [OF x0] show ?thesis
  proof
    assume "round64 x = PInf"
    then show ?thesis
      using hi by simp
  next
    assume "\<exists>r. round64 x = Fin r \<and> 0 \<le> r \<and> round64 r = Fin r"
    then show ?thesis
      using lo hi by auto
  qed
qed
lemma float64_of_int_side:
  assumes "0 < n" and "n < 2 ^ 31"
  shows "float64_of_int n = Fin (of_int n)"
proof -
  have "(2::int) ^ 31 \<le> 2 ^ 53"
    by simp
  then have "n < 2 ^ 53"
    using assms(2) by linarith
  moreover have "0 \<le> n"
    using assms(1) by simp
  ultimately show ?thesis
    by (intro float64_of_int_exact)
qed

lemma side_rat:
  assumes "0 < n" and "n < 2 ^ 31"
  shows "(1::rat) \<le> of_int n" and "(of_int n :: rat) \<le> 2 ^ 31"
proof -
  show "(1::rat) \<le> of_int n"
    using assms(1) by simp
  have "(of_int n :: rat) \<le> of_int (2 ^ 31)"
    using assms(2) by (simp only: of_int_le_iff)
  then show "(of_int n :: rat) \<le> 2 ^ 31"
    by simp
qed

text \<open>The ratio of two sides and its rounding.\<close>

lemma ratio_between:
  assumes "0 < a" and "a < 2 ^ 31" and "0 < b" and "b < 2 ^ 31"
  shows "\<exists>r. fdiv (float64_of_int a) (float64_of_int b) = Fin r
           \<and> round64 (of_int a / of_int b) = Fin r
           \<and> 1 / 2 ^ 31 \<le> r \<and> r \<le> 2 ^ 31 \<and> round64 r = Fin r"
proof -
  have a: "(1::rat) \<le> of_int a" "(of_int a :: rat) \<le> 2 ^ 31"
    using assms(1,2) by (rule side_rat)+
  have b: "(1::rat) \<le> of_int b" "(of_int b :: rat) \<le> 2 ^ 31"
    using assms(3,4) by (rule side_rat)+
  have b0: "(0::rat) < of_int b"
    using b(1) by simp
  have "(1::rat) * of_int b \<le> 2 ^ 31 * of_int a"
    using a(1) b(2) by (simp add: mult_mono)
  then have lo: "(1::rat) / 2 ^ 31 \<le> of_int a / of_int b"
    using b0 by (simp add: field_simps)
  have "(of_int a :: rat) \<le> 2 ^ 31 * 1"
    using a(2) by simp
  also have "(2::rat) ^ 31 * 1 \<le> 2 ^ 31 * of_int b"
    using b(1) by (intro mult_left_mono) simp_all
  finally have "(of_int a :: rat) \<le> 2 ^ 31 * of_int b" .
  then have hi: "(of_int a / of_int b :: rat) \<le> 2 ^ 31"
    using b0 by (simp add: pos_divide_le_eq)
  obtain r where r: "round64 (of_int a / of_int b) = Fin r" "1 / 2 ^ 31 \<le> r" "r \<le> 2 ^ 31"
      "round64 r = Fin r"
    using round64_between [OF lo hi] by auto
  have fa: "float64_of_int a = Fin (of_int a)"
    using assms(1,2) by (rule float64_of_int_side)
  have fb: "float64_of_int b = Fin (of_int b)"
    using assms(3,4) by (rule float64_of_int_side)
  have "(of_int b :: rat) \<noteq> 0"
    using b0 by simp
  then have "fdiv (float64_of_int a) (float64_of_int b) = round64 (of_int a / of_int b)"
    unfolding fa fb by simp
  then show ?thesis
    using r by auto
qed

text \<open>
  In the branch of a source wider than the target, the height computed for the crop is
  not below the source's height; in the branch of a narrower source, the width computed
  is not below the source's width.
\<close>

lemma new_height_bound:
  assumes ow: "0 < ow" "ow < 2 ^ 31" and oh: "0 < oh" "oh < 2 ^ 31"
    and t: "round64 t = Fin t" "1 / 2 ^ 31 \<le> t"
    and o: "round64 (of_int ow / of_int oh) = Fin r" and lt: "t < r"
  shows "oh \<le> int_of_float64 oor (fdiv (float64_of_int ow) (Fin t))"
proof -
  have w: "(1::rat) \<le> of_int ow" "(of_int ow :: rat) \<le> 2 ^ 31"
    using ow by (rule side_rat)+
  have h: "(1::rat) \<le> of_int oh" "(of_int oh :: rat) \<le> 2 ^ 31"
    using oh by (rule side_rat)+
  have "(0::rat) < 1 / 2 ^ 31"
    by simp
  then have t0: "0 < t"
    using t(2) by linarith
  have "(0::rat) \<le> of_int ow / of_int oh"
    using w(1) h(1) by simp
  then have "t < of_int ow / of_int oh"
    using t(1) o lt by (rule round64_above)
  then have "t * of_int oh < of_int ow"
    using h(1) by (simp add: pos_less_divide_eq)
  then have ge: "of_int oh \<le> of_int ow / t"
    using t0 by (simp add: pos_le_divide_eq mult.commute)
  have "of_int ow \<le> 2 ^ 31 * (2 ^ 31 * t)"
  proof -
    have "(1::rat) \<le> 2 ^ 31 * t"
      using t(2) by (simp add: field_simps)
    then have "(2::rat) ^ 31 * 1 \<le> 2 ^ 31 * (2 ^ 31 * t)"
      by (intro mult_left_mono) simp_all
    then show ?thesis
      using w(2) by simp
  qed
  then have "of_int ow \<le> 2 ^ 62 * t"
    by simp
  then have hi: "of_int ow / t \<le> 2 ^ 62"
    using t0 by (simp add: pos_divide_le_eq)
  have "(1::rat) / 2 ^ 0 \<le> of_int ow / t"
    using ge h(1) by simp
  then obtain v where v: "round64 (of_int ow / t) = Fin v" "v \<le> 2 ^ 62" "1 / 2 ^ 0 \<le> v"
    using round64_between [OF _ hi, of 0] by auto
  have "fle (round64 (of_int oh)) (round64 (of_int ow / t))"
    using ge h(1) by (intro round64_mono) simp_all
  moreover have "round64 (of_int oh) = Fin (of_int oh)"
    using float64_of_int_side [OF oh] by (simp add: float64_of_int_def)
  ultimately have ohv: "of_int oh \<le> v"
    using v(1) by simp
  have v0: "0 \<le> v"
    using v(3) by simp
  have "v \<le> of_int (2 ^ 62)"
    using v(2) by simp
  then have "\<lfloor>v\<rfloor> \<le> \<lfloor>(of_int (2 ^ 62) :: rat)\<rfloor>"
    by (rule floor_mono)
  then have "\<lfloor>v\<rfloor> \<le> 2 ^ 62"
    by (simp only: floor_of_int)
  then have "trunc v < 2 ^ 63" and "- (2 ^ 63) \<le> trunc v"
    using v0 by (simp_all add: trunc_nonneg)
  moreover have "oh \<le> trunc v"
    using ohv v0 by (simp add: trunc_nonneg le_floor_iff)
  moreover have "fdiv (float64_of_int ow) (Fin t) = Fin v"
    using v(1) t0 by (simp add: float64_of_int_side [OF ow])
  ultimately show ?thesis
    by simp
qed

lemma new_width_bound:
  assumes ow: "0 < ow" "ow < 2 ^ 31" and oh: "0 < oh" "oh < 2 ^ 31"
    and t: "round64 t = Fin t" "1 / 2 ^ 31 \<le> t" "t \<le> 2 ^ 31"
    and o: "round64 (of_int ow / of_int oh) = Fin r" and lt: "r < t"
  shows "ow \<le> int_of_float64 oor (fmul (float64_of_int oh) (Fin t))"
proof -
  have w: "(1::rat) \<le> of_int ow" "(of_int ow :: rat) \<le> 2 ^ 31"
    using ow by (rule side_rat)+
  have h: "(1::rat) \<le> of_int oh" "(of_int oh :: rat) \<le> 2 ^ 31"
    using oh by (rule side_rat)+
  have "(0::rat) < 1 / 2 ^ 31"
    by simp
  then have t0: "0 < t"
    using t(2) by linarith
  have "0 \<le> t"
    using t0 by simp
  then have "of_int ow / of_int oh < t"
    using t(1) o lt by (rule round64_below)
  then have "of_int ow < t * of_int oh"
    using h(1) by (simp add: pos_divide_less_eq)
  then have ge: "of_int ow \<le> of_int oh * t"
    by (simp add: mult.commute)
  have "of_int oh * t \<le> 2 ^ 31 * t"
    using h(2) t0 by (intro mult_right_mono) simp_all
  also have "2 ^ 31 * t \<le> 2 ^ 31 * 2 ^ 31"
    using t(3) by (intro mult_left_mono) simp_all
  also have "(2::rat) ^ 31 * 2 ^ 31 = 2 ^ 62"
    by simp
  finally have hi: "of_int oh * t \<le> 2 ^ 62" .
  have "(1::rat) / 2 ^ 0 \<le> of_int oh * t"
    using ge w(1) by simp
  then obtain v where v: "round64 (of_int oh * t) = Fin v" "v \<le> 2 ^ 62" "1 / 2 ^ 0 \<le> v"
    using round64_between [OF _ hi, of 0] by auto
  have "fle (round64 (of_int ow)) (round64 (of_int oh * t))"
    using ge w(1) by (intro round64_mono) simp_all
  moreover have "round64 (of_int ow) = Fin (of_int ow)"
    using float64_of_int_side [OF ow] by (simp add: float64_of_int_def)
  ultimately have owv: "of_int ow \<le> v"
    using v(1) by simp
  have v0: "0 \<le> v"
    using v(3) by simp
  have "v \<le> of_int (2 ^ 62)"
    using v(2) by simp
  then have "\<lfloor>v\<rfloor> \<le> \<lfloor>(of_int (2 ^ 62) :: rat)\<rfloor>"
    by (rule floor_mono)
  then have "\<lfloor>v\<rfloor> \<le> 2 ^ 62"
    by (simp only: floor_of_int)
  then have "trunc v < 2 ^ 63" and "- (2 ^ 63) \<le> trunc v"
    using v0 by (simp_all add: trunc_nonneg)
  moreover have "ow \<le> trunc v"
    using owv v0 by (simp add: trunc_nonneg le_floor_iff)
  moreover have "fmul (float64_of_int oh) (Fin t) = Fin v"
    using v(1) by (simp add: float64_of_int_side [OF oh])
  ultimately show ?thesis
    by simp
qed
lemma Dx_image_Rect: "0 \<le> w \<Longrightarrow> Dx (image_Rect 0 0 w h) = w"
  by (simp add: Dx_def image_Rect_def)

lemma Dy_image_Rect: "0 \<le> h \<Longrightarrow> Dy (image_Rect 0 0 w h) = h"
  by (simp add: Dy_def image_Rect_def)

text \<open>
  The ratio step of \<open>SmartCrop\<close>, for a source with its origin at (0, 0): it either
  scales the source or crops it to its own bounds, that is, to the whole image.
\<close>

lemma SmartCrop_ratio_step:
  assumes b: "Bounds lib img = image_Rect 0 0 ow oh"
    and ow: "0 < ow" "ow < 2 ^ 31" and oh: "0 < oh" "oh < 2 ^ 31"
    and tw: "0 < tw" "tw < 2 ^ 31" and th: "0 < th" "th < 2 ^ 31"
  shows "\<exists>resized.
     SmartCrop oor lib img tw th
       = Sharpen lib (Fill lib resized tw th Center Lanczos) (Fin (1 / 2))
     \<and> (resized = Crop lib img (Bounds lib img) \<or> resized = Resize lib img tw 0 Lanczos
        \<or> resized = Resize lib img 0 th Lanczos \<or> resized = Resize lib img tw th Lanczos)"
proof -
  have dx: "Dx (Bounds lib img) = ow" and dy: "Dy (Bounds lib img) = oh"
    using ow(1) oh(1) by (simp_all add: b Dx_image_Rect Dy_image_Rect)
  obtain t where t: "fdiv (float64_of_int tw) (float64_of_int th) = Fin t"
      "1 / 2 ^ 31 \<le> t" "t \<le> 2 ^ 31" "round64 t = Fin t"
    using ratio_between [OF tw th] by blast
  obtain r where r: "fdiv (float64_of_int ow) (float64_of_int oh) = Fin r"
      "round64 (of_int ow / of_int oh) = Fin r"
    using ratio_between [OF ow oh] by blast
  let ?nh = "int_of_float64 oor (fdiv (float64_of_int ow) (Fin t))"
  let ?nw = "int_of_float64 oor (fmul (float64_of_int oh) (Fin t))"
  have S: "SmartCrop oor lib img tw th =
      Sharpen lib (Fill lib
        (if t < r then
           (if ?nh \<le> oh then Crop lib img (image_Rect 0 0 ow ?nh)
            else Resize lib img tw 0 Lanczos)
         else if r < t then
           (if ?nw \<le> ow then Crop lib img (image_Rect 0 0 ?nw oh)
            else Resize lib img 0 th Lanczos)
         else Resize lib img tw th Lanczos) tw th Center Lanczos) (Fin (1 / 2))"
    unfolding SmartCrop_def Let_def dx dy t(1) r(1) by simp
  consider (wide) "t < r" | (narrow) "\<not> t < r" "r < t" | (same) "\<not> t < r" "\<not> r < t"
    by blast
  then show ?thesis
  proof cases
    case wide
    have "oh \<le> ?nh"
      using ow oh t(4) t(2) r(2) wide by (rule new_height_bound)
    then have "?nh \<le> oh \<Longrightarrow> image_Rect 0 0 ow ?nh = Bounds lib img"
      using b by simp
    then show ?thesis
      unfolding S using wide by (cases "?nh \<le> oh") auto
  next
    case narrow
    have "ow \<le> ?nw"
      using ow oh t(4) t(2) t(3) r(2) narrow(2) by (rule new_width_bound)
    then have "?nw \<le> ow \<Longrightarrow> image_Rect 0 0 ?nw oh = Bounds lib img"
      using b by simp
    then show ?thesis
      unfolding S using narrow by (cases "?nw \<le> ow") auto
  next
    case same
    then show ?thesis
      unfolding S by auto
  qed
qed

lemma SmartCrop_dimensions_nonempty:
  assumes fill: "Fill_exact_on_nonempty lib" and sharpen: "Sharpen_keeps lib"
    and resize: "Resize_nonempty lib" and crop: "Crop_whole lib"
    and b: "Bounds lib img = image_Rect 0 0 ow oh"
    and ow: "0 < ow" "ow < 2 ^ 31" and oh: "0 < oh" "oh < 2 ^ 31"
    and tw: "0 < tw" "tw < 2 ^ 31" and th: "0 < th" "th < 2 ^ 31"
  shows "Dx (Bounds lib (SmartCrop oor lib img tw th)) = tw
     \<and> Dy (Bounds lib (SmartCrop oor lib img tw th)) = th"
proof -
  have src: "nonempty lib img"
    using ow(1) oh(1) by (simp add: nonempty_def b Dx_image_Rect Dy_image_Rect)
  obtain resized where s: "SmartCrop oor lib img tw th
       = Sharpen lib (Fill lib resized tw th Center Lanczos) (Fin (1 / 2))"
    and c: "resized = Crop lib img (Bounds lib img) \<or> resized = Resize lib img tw 0 Lanczos
        \<or> resized = Resize lib img 0 th Lanczos \<or> resized = Resize lib img tw th Lanczos"
    using SmartCrop_ratio_step [OF b ow oh tw th, of oor] by blast
  have "nonempty lib (Crop lib img (Bounds lib img))"
    using crop src by (simp add: Crop_whole_def)
  moreover have "nonempty lib (Resize lib img tw 0 Lanczos)"
    and "nonempty lib (Resize lib img 0 th Lanczos)"
    and "nonempty lib (Resize lib img tw th Lanczos)"
    using resize src tw(1) th(1) unfolding Resize_nonempty_def by simp_all
  ultimately have "nonempty lib resized"
    using c by auto
  then have "Dx (Bounds lib (Fill lib resized tw th Center Lanczos)) = tw
      \<and> Dy (Bounds lib (Fill lib resized tw th Center Lanczos)) = th"
    using fill tw(1) th(1) unfolding Fill_exact_on_nonempty_def by blast
  then show ?thesis
    unfolding s using sharpen by (simp add: Sharpen_keeps_def)
qed

text \<open>The library instance \<open>traced\<close> meets the four contracts.\<close>

lemma traced_contracts:
  "Fill_exact_on_nonempty traced" "Sharpen_keeps traced" "Resize_nonempty traced"
  "Crop_whole traced"
proof -
  show "Fill_exact_on_nonempty traced"
    by (auto simp add: Fill_exact_on_nonempty_def nonempty_def traced_def Let_def
        Dx_image_Rect Dy_image_Rect)
  show "Sharpen_keeps traced"
    by (simp add: Sharpen_keeps_def traced_def)
  show "Resize_nonempty traced"
    by (auto simp add: Resize_nonempty_def nonempty_def traced_def Let_def scaled_side_def
        Dx_def Dy_def image_Rect_def)
  show "Crop_whole traced"
    by (auto simp add: Crop_whole_def nonempty_def traced_def Let_def Intersect_def Empty_def
        Dx_def Dy_def image_Rect_def)
qed

text \<open>Three runs of \<open>SmartCrop\<close> that hand an empty image to the fill pass.\<close>

lemma SmartCrop_empty_source:
  assumes "Dx (Bounds lib img) = 0" and "Dy (Bounds lib img) = 0"
  shows "SmartCrop oor lib img 1200 628 =
     Sharpen lib (Fill lib (Resize lib img 1200 628 Lanczos) 1200 628 Center Lanczos)
       (Fin (1 / 2))"
  unfolding SmartCrop_def Let_def assms fdiv_1200_628
  by (simp add: float64_of_int_exact)

lemma fdiv_1911_1000:
  "fdiv (float64_of_int 1911) (float64_of_int 1000) = Fin (8606378887905018 / 2 ^ 52)"
proof -
  have "round64 (of_int 1911 / of_int 1000) = Fin (8606378887905018 / 2 ^ 52)"
    using round64_fraction [of 1000 0 1911] by simp
  then show ?thesis
    by (simp add: float64_of_int_exact)
qed

lemma fdiv_1911_ratio:
  "fdiv (float64_of_int 1911) (Fin (8605604383510502 / 2 ^ 52))
     = Fin (8796884670579999 / 2 ^ 43)"
proof -
  have "round64 (of_int (1911 * 2 ^ 52) / of_int 8605604383510502)
      = Fin (8796884670579999 / 2 ^ 43)"
    using round64_fraction [of 8605604383510502 9 "1911 * 2 ^ 52"] by simp
  then show ?thesis
    by (simp add: float64_of_int_exact)
qed

lemma trunc_new_height: "trunc (8796884670579999 / 8796093022208) = 1000"
proof -
  have "\<lfloor>8796884670579999 / 8796093022208 :: rat\<rfloor> = 1000"
    by (rule floor_unique) simp_all
  then show ?thesis
    by (simp add: trunc_def)
qed

lemma SmartCrop_1911_1000:
  assumes "Dx (Bounds lib img) = 1911" and "Dy (Bounds lib img) = 1000"
  shows "SmartCrop oor lib img 1200 628 =
     Sharpen lib (Fill lib (Crop lib img (image_Rect 0 0 1911 1000)) 1200 628 Center Lanczos)
       (Fin (1 / 2))"
  unfolding SmartCrop_def Let_def assms fdiv_1200_628 fdiv_1911_1000 fdiv_1911_ratio
  by (simp add: trunc_new_height)

lemma fdiv_1_4503599627370496:
  "fdiv (float64_of_int 1) (float64_of_int 4503599627370496) = Fin (1 / 4503599627370496)"
  using round64_inverse_two_power [of 52] by (simp add: float64_of_int_exact)

lemma fdiv_2048_1: "fdiv (float64_of_int 2048) (float64_of_int 1) = Fin 2048"
  using round64_two_power [of 11] by (simp add: float64_of_int_exact)

lemma fdiv_2048_ratio:
  "fdiv (float64_of_int 2048) (Fin (1 / 4503599627370496)) = Fin 9223372036854775808"
  using round64_two_power [of 63] by (simp add: float64_of_int_exact)

lemma SmartCrop_2048_1:
  assumes "Dx (Bounds lib img) = 2048" and "Dy (Bounds lib img) = 1"
  shows "SmartCrop oor_amd64 lib img 1 4503599627370496 =
     Sharpen lib
       (Fill lib (Crop lib img (image_Rect 0 0 2048 (- 9223372036854775808)))
          1 4503599627370496 Center Lanczos)
       (Fin (1 / 2))"
  unfolding SmartCrop_def Let_def assms fdiv_1_4503599627370496 fdiv_2048_1 fdiv_2048_ratio
  by (simp add: trunc_numeral oor_amd64_def)

text \<open>
  Claim C1, as stated, fails: not every source image gives an image of the target
  dimensions. With the operations of the library (\<open>traced\<close>), the result is an empty
  image, 0 by 0, in three cases. The source is empty. The source is 1911 by 1000 with
  its origin at (2000, 2000): \<open>SmartCrop\<close> crops to the rectangle from (0, 0) to
  (1911, 1000), which the source does not overlap. The source is 2048 by 1 and the
  target 1 by \<open>2 ^ 52\<close>: the height computed for the crop is \<open>2 ^ 63\<close>, which is not an
  \<open>int64\<close>, the amd64 conversion gives \<open>- 2 ^ 63\<close>, and the crop rectangle, from (0, 0)
  to (2048, \<open>- 2 ^ 63\<close>), has no pixel in common with the source.
\<close>

theorem SmartCrop_empty_result:
  "Dx (Bounds traced (SmartCrop oor_amd64 traced (Source (image_Rect 0 0 0 0)) 1200 628)) = 0
   \<and> Dy (Bounds traced (SmartCrop oor_amd64 traced (Source (image_Rect 0 0 0 0)) 1200 628)) = 0
   \<and> Dx (Bounds traced
        (SmartCrop oor_amd64 traced (Source (image_Rect 2000 2000 3911 3000)) 1200 628)) = 0
   \<and> Dy (Bounds traced
        (SmartCrop oor_amd64 traced (Source (image_Rect 2000 2000 3911 3000)) 1200 628)) = 0
   \<and> Dx (Bounds traced
        (SmartCrop oor_amd64 traced (Source (image_Rect 0 0 2048 1)) 1 4503599627370496)) = 0
   \<and> Dy (Bounds traced
        (SmartCrop oor_amd64 traced (Source (image_Rect 0 0 2048 1)) 1 4503599627370496)) = 0"
proof -
  have e: "Dx (Bounds traced (Source (image_Rect 0 0 0 0))) = 0"
      "Dy (Bounds traced (Source (image_Rect 0 0 0 0))) = 0"
    by (simp_all add: traced_def image_Rect_def Dx_def Dy_def)
  have o: "Dx (Bounds traced (Source (image_Rect 2000 2000 3911 3000))) = 1911"
      "Dy (Bounds traced (Source (image_Rect 2000 2000 3911 3000))) = 1000"
    by (simp_all add: traced_def image_Rect_def Dx_def Dy_def)
  have l: "Dx (Bounds traced (Source (image_Rect 0 0 2048 1))) = 2048"
      "Dy (Bounds traced (Source (image_Rect 0 0 2048 1))) = 1"
    by (simp_all add: traced_def image_Rect_def Dx_def Dy_def)
  show ?thesis
    unfolding SmartCrop_empty_source [OF e] SmartCrop_1911_1000 [OF o] SmartCrop_2048_1 [OF l]
    by (simp add: traced_def Let_def Intersect_def Empty_def ZR_def image_Rect_def Dx_def Dy_def)
qed

text \<open>
  Claim C1, amended. Let the fill pass of the library return an image of exactly the
  requested dimensions when these are positive and the image is not empty, let the
  sharpening keep the dimensions, let scaling an image that is not empty give an image
  that is not empty, and let cropping an image to its own bounds give an image that is
  not empty. Then, for every source image that is not empty and has its origin at
  (0, 0), and for positive target dimensions, all four dimensions being below \<open>2 ^ 31\<close>,
  the image that \<open>SmartCrop\<close> returns is exactly \<open>targetWidth\<close> by \<open>targetHeight\<close>,
  whatever the aspect ratios. Nothing is stated about a source whose origin is not
  (0, 0).
\<close>

theorem SmartCrop_dimensions:
  "Fill_exact_on_nonempty lib \<and> Sharpen_keeps lib \<and> Resize_nonempty lib \<and> Crop_whole lib
     \<and> Bounds lib img = image_Rect 0 0 ow oh
     \<and> 0 < ow \<and> ow < 2 ^ 31 \<and> 0 < oh \<and> oh < 2 ^ 31
     \<and> 0 < targetWidth \<and> targetWidth < 2 ^ 31 \<and> 0 < targetHeight \<and> targetHeight < 2 ^ 31 \<longrightarrow>
   Dx (Bounds lib (SmartCrop oor lib img targetWidth targetHeight)) = targetWidth
   \<and> Dy (Bounds lib (SmartCrop oor lib img targetWidth targetHeight)) = targetHeight"
  using SmartCrop_dimensions_nonempty [of lib img ow oh targetWidth targetHeight oor]
  by blast

theorem SmartCrop_dimensions_witness:
  "Dx (Bounds traced (SmartCrop oor_amd64 traced (Source (image_Rect 0 0 600 800)) 1200 628)) = 1200
   \<and> Dy (Bounds traced (SmartCrop oor_amd64 traced (Source (image_Rect 0 0 600 800)) 1200 628)) = 628"
proof -
  note t = SmartCrop_dimensions [of traced "Source (image_Rect 0 0 600 800)" 600 800 1200 628
      oor_amd64]
  have b: "Bounds traced (Source (image_Rect 0 0 600 800)) = image_Rect 0 0 600 800"
    by (simp add: traced_def)
  have h: "Fill_exact_on_nonempty traced \<and> Sharpen_keeps traced \<and> Resize_nonempty traced
      \<and> Crop_whole traced
      \<and> Bounds traced (Source (image_Rect 0 0 600 800)) = image_Rect 0 0 600 800
      \<and> (0::int) < 600 \<and> (600::int) < 2 ^ 31 \<and> (0::int) < 800 \<and> (800::int) < 2 ^ 31
      \<and> (0::int) < 1200 \<and> (1200::int) < 2 ^ 31 \<and> (0::int) < 628 \<and> (628::int) < 2 ^ 31"
    using traced_contracts b by simp
  show ?thesis
    using t h by (rule mp)
qed

end
